theory Spec2Isabelle
  imports Main
begin

section \<open>JavaScript strings\<close>

text \<open>
  A JavaScript string is modelled as the list of its code units, using HOL's \<open>string\<close>.
  HOL characters are 8-bit, so the development covers message bodies, user names and
  channel names whose code units lie in that range; \<open>toLowerCase\<close> maps the ASCII
  capitals and leaves every other code unit alone (Twitch login names are ASCII).
\<close>

definition toLowerCase_char :: "char \<Rightarrow> char" where
  "toLowerCase_char c =
     (let n = (of_char c :: nat) in if 65 \<le> n \<and> n \<le> 90 then char_of (n + 32) else c)"

definition toLowerCase :: "string \<Rightarrow> string" where
  "toLowerCase s = map toLowerCase_char s"

text \<open>\<open>s.charAt(i)\<close>: the one-unit string at index \<open>i\<close>, or the empty string out of range.\<close>

definition charAt :: "string \<Rightarrow> nat \<Rightarrow> string" where
  "charAt s i = (if i < length s then [s ! i] else [])"

text \<open>\<open>s.startsWith(p)\<close> and \<open>s.includes(p)\<close> (a search for \<open>p\<close> at every index).\<close>

fun startsWith :: "string \<Rightarrow> string \<Rightarrow> bool" where
  "startsWith s [] = True"
| "startsWith [] (p # ps) = False"
| "startsWith (c # cs) (p # ps) = (c = p \<and> startsWith cs ps)"

fun str_includes :: "string \<Rightarrow> string \<Rightarrow> bool" where
  "str_includes [] p = startsWith [] p"
| "str_includes (c # cs) p = (startsWith (c # cs) p \<or> str_includes cs p)"

text \<open>
  \<open>s.substring(a, b)\<close>: both indices are clamped to \<open>[0, length s]\<close> and swapped when
  \<open>a > b\<close>; the result is the code units from the smaller to the larger index.
\<close>

definition clampIndex :: "string \<Rightarrow> int \<Rightarrow> nat" where
  "clampIndex s i = (if i < 0 then 0 else min (nat i) (length s))"

definition substring :: "string \<Rightarrow> int \<Rightarrow> int \<Rightarrow> string" where
  "substring s a b =
     (let lo = min (clampIndex s a) (clampIndex s b);
          hi = max (clampIndex s a) (clampIndex s b)
      in take (hi - lo) (drop lo s))"

text \<open>\<open>s.replace('#', '')\<close> with a string pattern removes the first \<open>#\<close> only.\<close>

definition replace_hash :: "string \<Rightarrow> string" where
  "replace_hash s = remove1 (CHR ''#'') s"

section \<open>Regular expressions\<close>

text \<open>
  The fragment of JavaScript regular expressions that \<open>REGEX_CONTAINS_URI\<close> uses:
  literal characters, character classes, the dot (any code unit but a line terminator),
  concatenation, alternation and the quantifiers \<open>*\<close> and \<open>+\<close>. Groups only
  structure the pattern. \<open>RegExp.prototype.test\<close> of a pattern without flags says
  whether some index of the subject starts a match; for this fragment that is decided
  by Brzozowski derivatives.
\<close>

datatype regex =
    Null
  | Eps
  | Chr char
  | Cls "char list"
  | Dot
  | Seq regex regex
  | Alt regex regex
  | Star regex

definition Plus :: "regex \<Rightarrow> regex" where
  "Plus r = Seq r (Star r)"

fun Lit :: "string \<Rightarrow> regex" where
  "Lit [] = Eps"
| "Lit (c # cs) = Seq (Chr c) (Lit cs)"

definition line_terminators :: "char list" where
  "line_terminators = [CHR 0x0A, CHR 0x0D]"

fun nullable :: "regex \<Rightarrow> bool" where
  "nullable Null = False"
| "nullable Eps = True"
| "nullable (Chr c) = False"
| "nullable (Cls cs) = False"
| "nullable Dot = False"
| "nullable (Seq r s) = (nullable r \<and> nullable s)"
| "nullable (Alt r s) = (nullable r \<or> nullable s)"
| "nullable (Star r) = True"

fun deriv :: "char \<Rightarrow> regex \<Rightarrow> regex" where
  "deriv c Null = Null"
| "deriv c Eps = Null"
| "deriv c (Chr d) = (if c = d then Eps else Null)"
| "deriv c (Cls cs) = (if c \<in> set cs then Eps else Null)"
| "deriv c Dot = (if c \<in> set line_terminators then Null else Eps)"
| "deriv c (Seq r s) =
     (if nullable r then Alt (Seq (deriv c r) s) (deriv c s) else Seq (deriv c r) s)"
| "deriv c (Alt r s) = Alt (deriv c r) (deriv c s)"
| "deriv c (Star r) = Seq (deriv c r) (Star r)"

text \<open>\<open>matchesAt r s\<close>: some prefix of \<open>s\<close> matches \<open>r\<close>.\<close>

fun matchesAt :: "regex \<Rightarrow> string \<Rightarrow> bool" where
  "matchesAt r [] = nullable r"
| "matchesAt r (c # cs) = (nullable r \<or> matchesAt (deriv c r) cs)"

text \<open>\<open>regex_test r s\<close> is \<open>r.test(s)\<close>: a match starting at some index of \<open>s\<close>.\<close>

fun regex_test :: "regex \<Rightarrow> string \<Rightarrow> bool" where
  "regex_test r [] = matchesAt r []"
| "regex_test r (c # cs) = (matchesAt r (c # cs) \<or> regex_test r cs)"

text \<open>
  The strings a pattern matches, as a set: the meaning the derivative matcher is
  checked against below.
\<close>

inductive_set repetitions :: "string set \<Rightarrow> string set" for A :: "string set" where
  rep_none: "[] \<in> repetitions A"
| rep_more: "u \<in> A \<Longrightarrow> v \<in> repetitions A \<Longrightarrow> u @ v \<in> repetitions A"

fun lang :: "regex \<Rightarrow> string set" where
  "lang Null = {}"
| "lang Eps = {[]}"
| "lang (Chr c) = {[c]}"
| "lang (Cls cs) = {[c] | c. c \<in> set cs}"
| "lang Dot = {[c] | c. c \<notin> set line_terminators}"
| "lang (Seq r s) = {u @ v | u v. u \<in> lang r \<and> v \<in> lang s}"
| "lang (Alt r s) = lang r \<union> lang s"
| "lang (Star r) = repetitions (lang r)"

text \<open>The class \<open>\w\<close>: ASCII letters, digits and the underscore.\<close>

definition word_chars :: "char list" where
  "word_chars =
     ''abcdefghijklmnopqrstuvwxyz'' @ ''ABCDEFGHIJKLMNOPQRSTUVWXYZ'' @ ''0123456789'' @ ''_''"

definition uri_scheme :: regex where
  "uri_scheme = Alt (Lit ''http'') (Alt (Lit ''ftp'') (Lit ''https''))"

text \<open>
  The SQLite variant builds the pattern from the single-quoted literal
  \<^verbatim>\<open>'(http|ftp|https):\/\/([\w_-]+(?:.[w_-]+)+)([\w.,@?^=%&:\/~+#-]*[\w@?^=%&\/~+#-])'\<close>.
  In a string literal \<^verbatim>\<open>\/\<close> is \<open>/\<close> and \<^verbatim>\<open>\w\<close> is the letter \<open>w\<close>, so the
  pattern \<open>RegExp\<close> receives is
  \<^verbatim>\<open>(http|ftp|https)://([w_-]+(?:.[w_-]+)+)([w.,@?^=%&:/~+#-]*[w@?^=%&/~+#-])\<close>.
\<close>

definition REGEX_CONTAINS_URI :: regex where
  "REGEX_CONTAINS_URI =
     Seq uri_scheme
    (Seq (Lit ''://'')
    (Seq (Seq (Plus (Cls ''w_-'')) (Plus (Seq Dot (Plus (Cls ''w_-'')))))
         (Seq (Star (Cls ''w.,@?^=%&:/~+#-'')) (Cls ''w@?^=%&/~+#-''))))"

text \<open>
  The MongoDB variants write the same pattern with doubled backslashes, so \<open>RegExp\<close>
  receives
  \<^verbatim>\<open>(http|ftp|https):\/\/([\w_-]+(?:\.[\w_-]+)+)([\w.,@?^=%&:/~+#-]*[\w@?^=%&/~+#-])\<close>.
\<close>

definition REGEX_CONTAINS_URI_escaped :: regex where
  "REGEX_CONTAINS_URI_escaped =
     Seq uri_scheme
    (Seq (Lit ''://'')
    (Seq (Seq (Plus (Cls (word_chars @ ''_-'')))
              (Plus (Seq (Chr (CHR ''.'')) (Plus (Cls (word_chars @ ''_-''))))))
         (Seq (Star (Cls (word_chars @ ''.,@?^=%&:/~+#-'')))
              (Cls (word_chars @ ''@?^=%&/~+#-'')))))"

section \<open>Configuration\<close>

text \<open>
  The repository holds several variants of one program. The functions below follow the
  SQLite variant (the first program of \<^verbatim>\<open>src/unnamed/part_000\<close>) and, for the sentiment
  window, the last MongoDB variant (in \<^verbatim>\<open>src/README.md\<close>); \<open>limiter\<close> and the queue
  handling are the same in \<^verbatim>\<open>src/app.js\<close>. The hype parameters are constants at the head
  of each variant; the functions take them as a record, and the shipped settings are
  given as values of it.
\<close>

record config =
  HYPE_MIN_MSG_LEN :: nat
  HYPE_MAX_MSG_LEN :: nat
  HYPE_MAX_QUEUE_LEN :: nat
  HYPE_THRESHOLD :: nat
  HYPE_THROTTLE :: int
  HYPE_USER_IGNORE_LIST :: "string list"
  URI_PATTERN :: regex

text \<open>The SQLite variant (window 8, threshold 3, throttle 20 s).\<close>

definition sqlite_config :: config where
  "sqlite_config =
     \<lparr>HYPE_MIN_MSG_LEN = 1, HYPE_MAX_MSG_LEN = 200, HYPE_MAX_QUEUE_LEN = 8,
      HYPE_THRESHOLD = 3, HYPE_THROTTLE = 20000, HYPE_USER_IGNORE_LIST = [''nightbot''],
      URI_PATTERN = REGEX_CONTAINS_URI\<rparr>"

text \<open>The MongoDB variants (window 10, threshold 5, throttle 30 s).\<close>

definition mongo_config :: config where
  "mongo_config =
     \<lparr>HYPE_MIN_MSG_LEN = 1, HYPE_MAX_MSG_LEN = 256, HYPE_MAX_QUEUE_LEN = 10,
      HYPE_THRESHOLD = 5, HYPE_THROTTLE = 30000, HYPE_USER_IGNORE_LIST = [''nightbot''],
      URI_PATTERN = REGEX_CONTAINS_URI_escaped\<rparr>"

section \<open>Message filter\<close>

text \<open>
  \<open>filterEnqueueMessage\<close> returns \<open>True\<close> when the message is to be kept out of the
  queue. It reads its arguments and the constants only.
\<close>

definition filterEnqueueMessage :: "config \<Rightarrow> string \<Rightarrow> string \<Rightarrow> string \<Rightarrow> bool \<Rightarrow> bool" where
  "filterEnqueueMessage cfg channel username message isModerator =
     (if isModerator \<or> toLowerCase username \<in> set (HYPE_USER_IGNORE_LIST cfg) then True
      else if charAt message 0 = ''!'' then True
      else if regex_test (URI_PATTERN cfg) message then True
      else False)"

section \<open>Per-channel queues and hype detection\<close>

text \<open>
  The state of the detection layer: the global \<open>messageQueues\<close> object (channel name to
  array of bodies, oldest first), and two logs that stand for its effects on its
  collaborators: the calls of \<open>recordUserChatStats\<close> and the calls of
  \<open>sendHypeMessageThrottled\<close>, each in order of occurrence.
\<close>

record bot_state =
  messageQueues :: "string \<rightharpoonup> string list"
  statsLog :: "(string \<times> string) list"
  hypeCalls :: "(string \<times> string) list"

definition initial_state :: bot_state where
  "initial_state = \<lparr>messageQueues = Map.empty, statsLog = [], hypeCalls = []\<rparr>"

text \<open>
  The counting loop of \<open>detectHype\<close>. \<open>messageCounts\<close> is a plain object used as a
  dictionary, so one key behaves differently: for the body \<^verbatim>\<open>__proto__\<close> the read
  yields the object's prototype, both assignments are ignored by the prototype setter
  (it only accepts objects and null), and the comparison of the prototype with the
  threshold is false. Such a body is skipped and never counted. Every other key is an
  own property after the first assignment (also \<^verbatim>\<open>constructor\<close> and the other
  inherited method names, whose inherited value is not an integer).
  The result is the body at which the loop stops, if it does.
\<close>

fun countLoop :: "nat \<Rightarrow> (string \<rightharpoonup> nat) \<Rightarrow> string list \<Rightarrow> string option" where
  "countLoop T messageCounts [] = None"
| "countLoop T messageCounts (message # rest) =
     (if message = ''__proto__'' then countLoop T messageCounts rest
      else
        let n = (case messageCounts message of None \<Rightarrow> 0 | Some k \<Rightarrow> k) + 1
        in if n \<ge> T then Some message
           else countLoop T (messageCounts(message \<mapsto> n)) rest)"

text \<open>
  \<open>detectHype\<close> iterates \<open>messageQueues[channel]\<close>; with no queue for the channel the
  iteration raises a TypeError, the value \<open>None\<close> here.
\<close>

definition detectHype :: "config \<Rightarrow> string \<Rightarrow> bot_state \<Rightarrow> bot_state option" where
  "detectHype cfg channel s =
     (case messageQueues s channel of
        None \<Rightarrow> None
      | Some queue \<Rightarrow>
          (case countLoop (HYPE_THRESHOLD cfg) Map.empty queue of
             None \<Rightarrow> Some s
           | Some message \<Rightarrow>
               Some (s\<lparr>messageQueues := (messageQueues s)(channel \<mapsto> []),
                        hypeCalls := hypeCalls s @ [(channel, message)]\<rparr>)))"

text \<open>\<open>startDequeueDisposalProcess\<close>: the timer callback replaces the whole object.\<close>

definition dequeueDisposal :: "bot_state \<Rightarrow> bot_state" where
  "dequeueDisposal s = s\<lparr>messageQueues := Map.empty\<rparr>"

text \<open>
  \<open>enqueueChatMessage\<close>. The optional \<open>emote\<close> replaces the body when it is truthy, that
  is, present and not the empty string.
\<close>

definition effectiveMessage :: "string \<Rightarrow> string option \<Rightarrow> string" where
  "effectiveMessage message emote =
     (case emote of None \<Rightarrow> message | Some e \<Rightarrow> if e = [] then message else e)"

definition enqueueChatMessage ::
  "config \<Rightarrow> string \<Rightarrow> string \<Rightarrow> string \<Rightarrow> bool \<Rightarrow> string option \<Rightarrow> bot_state \<Rightarrow> bot_state option" where
  "enqueueChatMessage cfg channel username message0 isModerator emote s =
     (let message = effectiveMessage message0 emote in
      if filterEnqueueMessage cfg channel username message isModerator then Some s
      else
        let s1 = s\<lparr>statsLog := statsLog s @ [(channel, username)]\<rparr>;
            queue0 = (case messageQueues s1 channel of None \<Rightarrow> [] | Some q \<Rightarrow> q);
            queue1 = (if length queue0 \<ge> HYPE_MAX_QUEUE_LEN cfg then tl queue0 else queue0);
            s2 = s1\<lparr>messageQueues := (messageQueues s1)(channel \<mapsto> queue1)\<rparr>
        in if length message \<ge> HYPE_MIN_MSG_LEN cfg \<and> length message \<le> HYPE_MAX_MSG_LEN cfg
           then detectHype cfg channel
                  (s2\<lparr>messageQueues := (messageQueues s2)(channel \<mapsto> queue1 @ [message])\<rparr>)
           else Some s2)"

text \<open>
  The \<open>PRIVMSG\<close> handler. The two \<open>handle...Message\<close> functions only write to the
  console and are left out.
\<close>

record emote_tag =
  emote_start :: int
  emote_end :: int

record privmsg =
  msg_channel :: string
  msg_username :: string
  msg_message :: string
  msg_isModerator :: bool
  msg_emotes :: "emote_tag list"

definition extractEmote :: "privmsg \<Rightarrow> string option" where
  "extractEmote msg =
     (case msg_emotes msg of
        [] \<Rightarrow> None
      | e # _ \<Rightarrow> Some (substring (msg_message msg) (emote_start e) (emote_end e + 1)))"

definition onPRIVMSG :: "config \<Rightarrow> privmsg \<Rightarrow> bot_state \<Rightarrow> bot_state option" where
  "onPRIVMSG cfg msg s =
     enqueueChatMessage cfg (replace_hash (msg_channel msg)) (msg_username msg)
       (msg_message msg) (msg_isModerator msg) (extractEmote msg) s"

text \<open>
  A run of the detection layer: calls of \<open>enqueueChatMessage\<close> and firings of the
  disposal timer, one after the other on the single event loop. A TypeError ends the run.
\<close>

datatype event =
    Enqueue string string string bool "string option"
  | Disposal

fun handle_event :: "config \<Rightarrow> event \<Rightarrow> bot_state \<Rightarrow> bot_state option" where
  "handle_event cfg (Enqueue channel username message isModerator emote) s =
     enqueueChatMessage cfg channel username message isModerator emote s"
| "handle_event cfg Disposal s = Some (dequeueDisposal s)"

fun run_events :: "config \<Rightarrow> event list \<Rightarrow> bot_state \<Rightarrow> bot_state option" where
  "run_events cfg [] s = Some s"
| "run_events cfg (e # es) s =
     (case handle_event cfg e s of None \<Rightarrow> None | Some s' \<Rightarrow> run_events cfg es s')"

text \<open>The queue a channel has, the empty one while none was created for it.\<close>

definition queue_of :: "bot_state \<Rightarrow> string \<Rightarrow> string list" where
  "queue_of s channel = (case messageQueues s channel of None \<Rightarrow> [] | Some q \<Rightarrow> q)"

section \<open>Hype emitter\<close>

text \<open>
  \<open>sendHypeMessage\<close> records an engagement of the bot's own user and hands the message to
  \<open>chat.say\<close>. Both effects are logged: \<open>engagementLog\<close> holds the calls of
  \<open>recordUserChatStats\<close>, \<open>sayCalls\<close> the calls of \<open>chat.say\<close> (message first, as in
  the source).
\<close>

record emitter_state =
  lastDispatch :: "int option"
  engagementLog :: "(string \<times> string) list"
  sayCalls :: "(string \<times> string) list"

definition emitter_init :: emitter_state where
  "emitter_init = \<lparr>lastDispatch = None, engagementLog = [], sayCalls = []\<rparr>"

definition sendHypeMessage :: "string \<Rightarrow> string \<Rightarrow> string \<Rightarrow> emitter_state \<Rightarrow> emitter_state" where
  "sendHypeMessage botname channel message e =
     e\<lparr>engagementLog := engagementLog e @ [(channel, botname)],
       sayCalls := sayCalls e @ [(message, channel)]\<rparr>"

text \<open>
  Modelled from the spec: \<open>_.throttle\<close> of the lodash library, called with
  \<open>{trailing: false}\<close>; its code is not part of the sources. The spec gives the throttle
  one piece of state, the time of the last dispatch, and one rule: a request arriving
  before \<open>lastDispatch + throttleInterval\<close> has elapsed is dropped; any other request is
  dispatched at once. \<open>now\<close> is the clock reading at the call.
\<close>

definition sendHypeMessageThrottled ::
  "config \<Rightarrow> string \<Rightarrow> int \<Rightarrow> string \<Rightarrow> string \<Rightarrow> emitter_state \<Rightarrow> emitter_state" where
  "sendHypeMessageThrottled cfg botname now channel message e =
     (case lastDispatch e of
        None \<Rightarrow> sendHypeMessage botname channel message (e\<lparr>lastDispatch := Some now\<rparr>)
      | Some t \<Rightarrow>
          if now < t + HYPE_THROTTLE cfg then e
          else sendHypeMessage botname channel message (e\<lparr>lastDispatch := Some now\<rparr>))"

section \<open>Action limiter\<close>

text \<open>
  \<open>limiter(fn, wait)\<close> closes over \<open>isCalled\<close> and \<open>calls\<close>. The state adds what the
  closure leaves to the runtime: the due times of the pending \<open>setTimeout\<close> callbacks, and
  a log of the calls invoked, each with the time of its invocation. A queued call is
  \<open>fn\<close> bound to its arguments, a value of type \<open>'a\<close> here; whether invoking it throws
  is given by the predicate \<open>throws\<close>.
\<close>

record 'a limiter_state =
  isCalled :: bool
  calls :: "'a list"
  timers :: "int list"
  executed :: "('a \<times> int) list"

definition limiter_init :: "'a limiter_state" where
  "limiter_init = \<lparr>isCalled = False, calls = [], timers = [], executed = []\<rparr>"

text \<open>
  A function of the limiter either returns or lets an exception of the invoked call
  escape; both leave the closure's variables in some state.
\<close>

datatype 's completion = Returned 's | Thrown 's

fun state_left :: "'s completion \<Rightarrow> 's" where
  "state_left (Returned s) = s"
| "state_left (Thrown s) = s"

text \<open>
  \<open>caller\<close> sets \<open>isCalled\<close>, shifts the oldest call off the queue and invokes it, and
  only then calls \<open>setTimeout\<close>. When the invoked call throws, the exception leaves
  \<open>caller\<close> before the timer is armed: \<open>isCalled\<close> stays true and nothing is pending that
  would clear it.
\<close>

definition caller ::
  "('a \<Rightarrow> bool) \<Rightarrow> int \<Rightarrow> int \<Rightarrow> 'a limiter_state \<Rightarrow> 'a limiter_state completion" where
  "caller throws wait now l =
     (case calls l of
        [] \<Rightarrow> Returned l
      | c # rest \<Rightarrow>
          if isCalled l then Returned l
          else
            let l1 = l\<lparr>isCalled := True, calls := rest, executed := executed l @ [(c, now)]\<rparr>
            in if throws c then Thrown l1
               else Returned (l1\<lparr>timers := timers l1 @ [now + wait]\<rparr>))"

text \<open>The function \<open>limiter\<close> returns: queue the bound call, then run \<open>caller\<close>.\<close>

definition limited ::
  "('a \<Rightarrow> bool) \<Rightarrow> int \<Rightarrow> int \<Rightarrow> 'a \<Rightarrow> 'a limiter_state \<Rightarrow> 'a limiter_state completion" where
  "limited throws wait now c l = caller throws wait now (l\<lparr>calls := calls l @ [c]\<rparr>)"

text \<open>The callback given to \<open>setTimeout\<close>.\<close>

definition timeout_callback ::
  "('a \<Rightarrow> bool) \<Rightarrow> int \<Rightarrow> int \<Rightarrow> 'a limiter_state \<Rightarrow> 'a limiter_state completion" where
  "timeout_callback throws wait now l = caller throws wait now (l\<lparr>isCalled := False\<rparr>)"

text \<open>
  The event loop around one limiter: at each instant either the limited function is
  called or the oldest pending timer fires. Event times never decrease, and a timer
  never fires before it is due; a schedule that breaks either rule is no run (\<open>None\<close>).
  An exception that escapes goes to whoever made the call; the limiter goes on from the
  state the exception left.
\<close>

datatype 'a limiter_event = Call 'a | Timeout

fun limiter_step ::
  "('a \<Rightarrow> bool) \<Rightarrow> int \<Rightarrow> int \<times> 'a limiter_event \<Rightarrow> int \<times> 'a limiter_state \<Rightarrow>
   (int \<times> 'a limiter_state) option" where
  "limiter_step throws wait (t, Call c) (clock, l) =
     (if t < clock then None else Some (t, state_left (limited throws wait t c l)))"
| "limiter_step throws wait (t, Timeout) (clock, l) =
     (case timers l of
        [] \<Rightarrow> None
      | due # others \<Rightarrow>
          if t < clock \<or> t < due then None
          else Some (t, state_left (timeout_callback throws wait t (l\<lparr>timers := others\<rparr>))))"

fun limiter_run ::
  "('a \<Rightarrow> bool) \<Rightarrow> int \<Rightarrow> (int \<times> 'a limiter_event) list \<Rightarrow> int \<times> 'a limiter_state \<Rightarrow>
   (int \<times> 'a limiter_state) option" where
  "limiter_run throws wait [] cl = Some cl"
| "limiter_run throws wait (ev # evs) cl =
     (case limiter_step throws wait ev cl of
        None \<Rightarrow> None
      | Some cl' \<Rightarrow> limiter_run throws wait evs cl')"

text \<open>The calls a schedule makes, in order.\<close>

fun enqueued :: "(int \<times> 'a limiter_event) list \<Rightarrow> 'a list" where
  "enqueued [] = []"
| "enqueued ((t, Call c) # evs) = c # enqueued evs"
| "enqueued ((t, Timeout) # evs) = enqueued evs"

text \<open>Consecutive times at least \<open>wait\<close> apart.\<close>

fun spaced :: "int \<Rightarrow> int list \<Rightarrow> bool" where
  "spaced wait [] = True"
| "spaced wait [t] = True"
| "spaced wait (t # u # ts) = (t + wait \<le> u \<and> spaced wait (u # ts))"

text \<open>
  Letting the limiter run dry: while a timer is pending, let it fire as soon as the
  clock allows.
\<close>

function drain ::
  "('a \<Rightarrow> bool) \<Rightarrow> int \<Rightarrow> int \<times> 'a limiter_state \<Rightarrow> (int \<times> 'a limiter_state) option" where
  "drain throws wait (clock, l) =
     (case timers l of
        [] \<Rightarrow> Some (clock, l)
      | due # others \<Rightarrow>
          (case limiter_step throws wait (max clock due, Timeout) (clock, l) of
             None \<Rightarrow> None
           | Some cl' \<Rightarrow> drain throws wait cl'))"
  by pat_completeness auto
termination
proof (relation "measure (\<lambda>(throws, wait, clock, l). 2 * length (calls l) + length (timers l))")
  show "wf (measure (\<lambda>(throws, wait, clock, l). 2 * length (calls l) + length (timers l)))"
    by simp
next
  fix throws :: "'a \<Rightarrow> bool" and wait :: int and clock :: int and l :: "'a limiter_state"
    and due others cl'
  assume t: "timers l = due # others"
    and st: "limiter_step throws wait (max clock due, Timeout) (clock, l) = Some cl'"
  from t st have cl': "cl' = (max clock due,
      state_left (timeout_callback throws wait (max clock due) (l\<lparr>timers := others\<rparr>)))"
    by (simp split: if_splits)
  show "((throws, wait, cl'), (throws, wait, clock, l))
          \<in> measure (\<lambda>(throws, wait, clock, l). 2 * length (calls l) + length (timers l))"
    using t by (simp add: cl' timeout_callback_def caller_def Let_def split: list.splits)
qed

section \<open>Sliding sentiment window\<close>

text \<open>
  The sentiment variant keeps, beside the hype state, two daily counters, the window of
  timestamped markers and (as a log) the moving averages handed to
  \<open>recordMovingAverage\<close>.
\<close>

record sentiment_state =
  hype :: bot_state
  dailyPositiveCount :: int
  dailyNegativeCount :: int
  messageWindow :: "(int \<times> string) list"
  movingAverages :: "int list"

definition WINDOW_SIZE_MS :: int where
  "WINDOW_SIZE_MS = 60000"

text \<open>The counting loop of \<open>updateMessageWindow\<close>, on (positiveCount, negativeCount).\<close>

fun countMarkers :: "(int \<times> string) list \<Rightarrow> int \<times> int \<Rightarrow> int \<times> int" where
  "countMarkers [] (positiveCount, negativeCount) = (positiveCount, negativeCount)"
| "countMarkers (msg # rest) (positiveCount, negativeCount) =
     (if snd msg = ''+2'' then countMarkers rest (positiveCount + 1, negativeCount)
      else if snd msg = ''-2'' then countMarkers rest (positiveCount, negativeCount + 1)
      else countMarkers rest (positiveCount, negativeCount))"

definition updateMessageWindow :: "int \<Rightarrow> int \<Rightarrow> string \<Rightarrow> sentiment_state \<Rightarrow> sentiment_state" where
  "updateMessageWindow windowSize now type s =
     (let pushed = messageWindow s @ [(now, type)];
          kept = filter (\<lambda>msg. now - fst msg \<le> windowSize) pushed;
          (positiveCount, negativeCount) = countMarkers kept (0, 0);
          movingAverage = (positiveCount * 2) - (negativeCount * 2)
      in s\<lparr>messageWindow := kept, movingAverages := movingAverages s @ [movingAverage]\<rparr>)"

text \<open>The interval timer evaluates the window with the empty marker.\<close>

definition window_tick :: "int \<Rightarrow> int \<Rightarrow> sentiment_state \<Rightarrow> sentiment_state" where
  "window_tick windowSize now s = updateMessageWindow windowSize now [] s"

text \<open>
  \<open>enqueueChatMessage\<close> of the sentiment variant: the hype part is the function above
  (with this variant's constants), followed, for a message that passed the filter, by
  the update of the counters and of the window.
\<close>

definition enqueueChatMessage_sentiment ::
  "config \<Rightarrow> int \<Rightarrow> int \<Rightarrow> string \<Rightarrow> string \<Rightarrow> string \<Rightarrow> bool \<Rightarrow> string option \<Rightarrow>
   sentiment_state \<Rightarrow> sentiment_state option" where
  "enqueueChatMessage_sentiment cfg windowSize now channel username message0 isModerator emote s =
     (let message = effectiveMessage message0 emote in
      if filterEnqueueMessage cfg channel username message isModerator then Some s
      else
        (case enqueueChatMessage cfg channel username message0 isModerator emote (hype s) of
           None \<Rightarrow> None
         | Some h \<Rightarrow>
             let s1 = s\<lparr>hype := h\<rparr>;
                 lowerMessage = toLowerCase message
             in if str_includes lowerMessage ''+2''
                then Some (updateMessageWindow windowSize now ''+2''
                             (s1\<lparr>dailyPositiveCount := dailyPositiveCount s1 + 1\<rparr>))
                else if str_includes lowerMessage ''-2''
                then Some (updateMessageWindow windowSize now ''-2''
                             (s1\<lparr>dailyNegativeCount := dailyNegativeCount s1 + 1\<rparr>))
                else Some s1))"

section \<open>Notions used in the statements\<close>

text \<open>
  The counts the loop of \<open>detectHype\<close> holds after it has passed over the bodies \<open>p\<close>.
\<close>

definition counts_of :: "string list \<Rightarrow> (string \<rightharpoonup> nat)" where
  "counts_of p =
     (\<lambda>m. if m \<in> set p \<and> m \<noteq> ''__proto__'' then Some (count_list p m) else None)"

text \<open>
  The loop stops at position \<open>i\<close> of the window \<open>w\<close> if it gets there: the body at \<open>i\<close>
  is one the loop counts, and the window up to and including \<open>i\<close> holds at least \<open>T\<close>
  copies of it.
\<close>

definition reaches :: "nat \<Rightarrow> string list \<Rightarrow> nat \<Rightarrow> bool" where
  "reaches T w i \<longleftrightarrow> w ! i \<noteq> ''__proto__'' \<and> T \<le> count_list (take (Suc i) w) (w ! i)"

text \<open>Every queue is within the configured length.\<close>

definition queues_bounded :: "config \<Rightarrow> bot_state \<Rightarrow> bool" where
  "queues_bounded cfg s \<longleftrightarrow>
     (\<forall>channel q. messageQueues s channel = Some q \<longrightarrow> length q \<le> HYPE_MAX_QUEUE_LEN cfg)"

text \<open>No stored queue holds a body at which the loop of \<open>detectHype\<close> would stop.\<close>

definition windows_quiet :: "config \<Rightarrow> bot_state \<Rightarrow> bool" where
  "windows_quiet cfg s \<longleftrightarrow>
     (\<forall>channel w. messageQueues s channel = Some w \<longrightarrow>
        countLoop (HYPE_THRESHOLD cfg) Map.empty w = None)"

text \<open>An insertion of body \<open>m\<close> in channel \<open>C\<close> by each of the given senders (name, moderator flag).\<close>

definition insertions :: "string \<Rightarrow> string \<Rightarrow> (string \<times> bool) list \<Rightarrow> event list" where
  "insertions C m senders = map (\<lambda>(u, md). Enqueue C u m md None) senders"

text \<open>Insertions of the given (sender, body, moderator flag) triples in channel \<open>C\<close>.\<close>

definition posts :: "string \<Rightarrow> (string \<times> string \<times> bool) list \<Rightarrow> event list" where
  "posts C ps = map (\<lambda>(u, m, md). Enqueue C u m md None) ps"

text \<open>Settings used to try the statements on: a window shorter than the threshold, and a window of length zero.\<close>

definition narrow_config :: config where
  "narrow_config = sqlite_config\<lparr>HYPE_MAX_QUEUE_LEN := 2\<rparr>"

definition zero_window_config :: config where
  "zero_window_config = sqlite_config\<lparr>HYPE_MAX_QUEUE_LEN := 0\<rparr>"

text \<open>
  What holds of a limiter between events while no call throws: it is marked busy
  exactly while a timer is pending, at most one timer is pending, calls wait in the
  queue only while it is busy, no queued call throws, the invocations so far are
  spaced, and the next invocation cannot come before the last one plus \<open>wait\<close> (the
  pending timer is due then, or the clock is already past it).
\<close>

definition limiter_inv :: "('a \<Rightarrow> bool) \<Rightarrow> int \<Rightarrow> int \<times> 'a limiter_state \<Rightarrow> bool" where
  "limiter_inv throws wait cl \<longleftrightarrow>
     (isCalled (snd cl) \<longleftrightarrow> timers (snd cl) \<noteq> []) \<and>
     length (timers (snd cl)) \<le> 1 \<and>
     (isCalled (snd cl) \<or> calls (snd cl) = []) \<and>
     (\<forall>c\<in>set (calls (snd cl)). \<not> throws c) \<and>
     spaced wait (map snd (executed (snd cl))) \<and>
     (executed (snd cl) = [] \<or>
      (if isCalled (snd cl) then timers (snd cl) = [snd (last (executed (snd cl))) + wait]
       else snd (last (executed (snd cl))) + wait \<le> fst cl))"

text \<open>Inputs used to try the statements on.\<close>

definition never_throws :: "string \<Rightarrow> bool" where
  "never_throws c \<longleftrightarrow> False"

definition burst_schedule :: "(int \<times> string limiter_event) list" where
  "burst_schedule =
     [(0, Call ''A1''), (10, Call ''A2''), (20, Call ''A3''), (1500, Timeout), (3100, Timeout)]"

definition boom_throws :: "string \<Rightarrow> bool" where
  "boom_throws c \<longleftrightarrow> c = ''boom''"

definition boom_schedule :: "(int \<times> string limiter_event) list" where
  "boom_schedule = [(0, Call ''boom''), (10, Call ''A2''), (5000, Call ''A3'')]"

definition sentiment_init :: sentiment_state where
  "sentiment_init = \<lparr>hype = initial_state, dailyPositiveCount = 0, dailyNegativeCount = 0,
     messageWindow = [], movingAverages = []\<rparr>"

definition kappa_msg :: privmsg where
  "kappa_msg = \<lparr>msg_channel = ''#chan'', msg_username = ''alice'',
     msg_message = ''Kappa hello there'', msg_isModerator = False,
     msg_emotes = [\<lparr>emote_start = 0, emote_end = 4\<rparr>]\<rparr>"

section \<open>Adequacy of the string search and of the pattern matcher\<close>

text \<open>
  \<open>str_includes\<close> finds the pattern exactly when it occurs as a substring, and
  \<open>regex_test\<close> succeeds exactly when some substring of the subject is matched by the
  pattern.
\<close>

lemma startsWith_iff: "startsWith s p \<longleftrightarrow> (\<exists>b. s = p @ b)"
  by (induction s p rule: startsWith.induct) auto

lemma str_includes_iff: "str_includes s p \<longleftrightarrow> (\<exists>a b. s = a @ p @ b)"
proof (induction s)
  case Nil
  then show ?case by (auto simp: startsWith_iff)
next
  case (Cons c cs)
  show ?case
  proof
    assume "str_includes (c # cs) p"
    then consider "startsWith (c # cs) p" | "str_includes cs p" by auto
    then show "\<exists>a b. c # cs = a @ p @ b"
    proof cases
      case 1
      then obtain b where "c # cs = [] @ p @ b" by (auto simp: startsWith_iff)
      then show ?thesis by blast
    next
      case 2
      then obtain a b where "cs = a @ p @ b" using Cons.IH by blast
      then have "c # cs = (c # a) @ p @ b" by simp
      then show ?thesis by blast
    qed
  next
    assume "\<exists>a b. c # cs = a @ p @ b"
    then obtain a b where ab: "c # cs = a @ p @ b" by blast
    show "str_includes (c # cs) p"
    proof (cases a)
      case Nil
      with ab have "startsWith (c # cs) p" by (auto simp: startsWith_iff)
      then show ?thesis by simp
    next
      case (Cons x a')
      with ab have "cs = a' @ p @ b" by simp
      then have "str_includes cs p" using Cons.IH by blast
      then show ?thesis by simp
    qed
  qed
qed

lemma nullable_iff: "nullable r \<longleftrightarrow> [] \<in> lang r"
  by (induction r) (auto intro: rep_none)

lemma repetitions_Cons:
  "c # w \<in> repetitions A \<longleftrightarrow> (\<exists>u v. w = u @ v \<and> c # u \<in> A \<and> v \<in> repetitions A)"
proof
  assume "c # w \<in> repetitions A"
  then show "\<exists>u v. w = u @ v \<and> c # u \<in> A \<and> v \<in> repetitions A"
  proof (induction "c # w" arbitrary: w rule: repetitions.induct)
    case (rep_more u v)
    show ?case
    proof (cases u)
      case Nil
      with rep_more show ?thesis by simp
    next
      case (Cons x u')
      with rep_more.hyps(4) have "x = c" "w = u' @ v" by simp_all
      with Cons rep_more.hyps(1,2) show ?thesis by blast
    qed
  qed
next
  assume "\<exists>u v. w = u @ v \<and> c # u \<in> A \<and> v \<in> repetitions A"
  then obtain u v where "w = u @ v" "c # u \<in> A" "v \<in> repetitions A" by blast
  then have "(c # u) @ v \<in> repetitions A" by (intro rep_more)
  then show "c # w \<in> repetitions A" using \<open>w = u @ v\<close> by simp
qed

lemma lang_deriv: "w \<in> lang (deriv c r) \<longleftrightarrow> c # w \<in> lang r"
proof (induction r arbitrary: w)
  case (Seq r s)
  show ?case
  proof
    assume "w \<in> lang (deriv c (Seq r s))"
    then consider (left) u v where "w = u @ v" "u \<in> lang (deriv c r)" "v \<in> lang s"
      | (right) "nullable r" "w \<in> lang (deriv c s)"
      by (auto split: if_splits)
    then show "c # w \<in> lang (Seq r s)"
    proof cases
      case left
      then have "c # u \<in> lang r" using Seq.IH(1) by blast
      with left have "(c # u) @ v \<in> lang (Seq r s)" by (simp del: append_Cons) blast
      then show ?thesis using left(1) by simp
    next
      case right
      then have "[] \<in> lang r" "c # w \<in> lang s" using Seq.IH(2) nullable_iff by blast+
      then have "[] @ (c # w) \<in> lang (Seq r s)" by (simp del: append_Nil) blast
      then show ?thesis by simp
    qed
  next
    assume "c # w \<in> lang (Seq r s)"
    then obtain u v where uv: "c # w = u @ v" "u \<in> lang r" "v \<in> lang s" by auto
    show "w \<in> lang (deriv c (Seq r s))"
    proof (cases u)
      case Nil
      with uv have "nullable r" "w \<in> lang (deriv c s)"
        using Seq.IH(2) nullable_iff by auto
      then show ?thesis by simp
    next
      case (Cons x u')
      with uv have "w = u' @ v" "u' \<in> lang (deriv c r)" using Seq.IH(1) by auto
      with uv(3) show ?thesis by auto
    qed
  qed
next
  case (Star r)
  have "w \<in> lang (deriv c (Star r)) \<longleftrightarrow>
        (\<exists>u v. w = u @ v \<and> u \<in> lang (deriv c r) \<and> v \<in> repetitions (lang r))"
    by auto
  also have "\<dots> \<longleftrightarrow> (\<exists>u v. w = u @ v \<and> c # u \<in> lang r \<and> v \<in> repetitions (lang r))"
    using Star.IH by blast
  also have "\<dots> \<longleftrightarrow> c # w \<in> lang (Star r)"
    by (simp add: repetitions_Cons)
  finally show ?case .
qed auto

lemma matchesAt_iff: "matchesAt r s \<longleftrightarrow> (\<exists>p q. s = p @ q \<and> p \<in> lang r)"
proof (induction s arbitrary: r)
  case Nil
  then show ?case by (simp add: nullable_iff)
next
  case (Cons c cs)
  have "matchesAt r (c # cs) \<longleftrightarrow> [] \<in> lang r \<or> (\<exists>p q. cs = p @ q \<and> c # p \<in> lang r)"
    by (simp add: Cons.IH nullable_iff lang_deriv)
  also have "\<dots> \<longleftrightarrow> (\<exists>p q. c # cs = p @ q \<and> p \<in> lang r)"
  proof
    assume "[] \<in> lang r \<or> (\<exists>p q. cs = p @ q \<and> c # p \<in> lang r)"
    then show "\<exists>p q. c # cs = p @ q \<and> p \<in> lang r"
    proof
      assume "[] \<in> lang r"
      then have "c # cs = [] @ (c # cs) \<and> [] \<in> lang r" by simp
      then show ?thesis by blast
    next
      assume "\<exists>p q. cs = p @ q \<and> c # p \<in> lang r"
      then obtain p q where "cs = p @ q" "c # p \<in> lang r" by blast
      then have "c # cs = (c # p) @ q \<and> c # p \<in> lang r" by simp
      then show ?thesis by blast
    qed
  next
    assume "\<exists>p q. c # cs = p @ q \<and> p \<in> lang r"
    then obtain p q where pq: "c # cs = p @ q" "p \<in> lang r" by blast
    show "[] \<in> lang r \<or> (\<exists>p q. cs = p @ q \<and> c # p \<in> lang r)"
    proof (cases p)
      case Nil
      with pq show ?thesis by simp
    next
      case (Cons x p')
      with pq have "cs = p' @ q" "c # p' \<in> lang r" by simp_all
      then show ?thesis by blast
    qed
  qed
  finally show ?case .
qed

lemma regex_test_iff: "regex_test r s \<longleftrightarrow> (\<exists>a p b. s = a @ p @ b \<and> p \<in> lang r)"
proof (induction s)
  case Nil
  then show ?case by (simp add: nullable_iff)
next
  case (Cons c cs)
  show ?case
  proof
    assume "regex_test r (c # cs)"
    then consider "matchesAt r (c # cs)" | "regex_test r cs" by auto
    then show "\<exists>a p b. c # cs = a @ p @ b \<and> p \<in> lang r"
    proof cases
      case 1
      then obtain p q where "c # cs = [] @ p @ q \<and> p \<in> lang r"
        using matchesAt_iff [of r "c # cs"] by auto
      then show ?thesis by blast
    next
      case 2
      then obtain a p b where "cs = a @ p @ b" "p \<in> lang r" using Cons.IH by blast
      then have "c # cs = (c # a) @ p @ b \<and> p \<in> lang r" by simp
      then show ?thesis by blast
    qed
  next
    assume "\<exists>a p b. c # cs = a @ p @ b \<and> p \<in> lang r"
    then obtain a p b where apb: "c # cs = a @ p @ b" "p \<in> lang r" by blast
    show "regex_test r (c # cs)"
    proof (cases a)
      case Nil
      with apb have "matchesAt r (c # cs)" using matchesAt_iff [of r "c # cs"] by auto
      then show ?thesis by simp
    next
      case (Cons x a')
      with apb have "cs = a' @ p @ b" by simp
      with apb(2) have "regex_test r cs" using Cons.IH by blast
      then show ?thesis by simp
    qed
  qed
qed

section \<open>Properties of the counting loop\<close>

lemma counts_of_Nil: "counts_of [] = Map.empty"
  by (simp add: counts_of_def)

lemma counts_of_read:
  "x \<noteq> ''__proto__'' \<Longrightarrow> (case counts_of p x of None \<Rightarrow> 0 | Some k \<Rightarrow> k) = count_list p x"
  by (simp add: counts_of_def)

lemma counts_of_snoc:
  "counts_of (p @ [x]) =
     (if x = ''__proto__'' then counts_of p else (counts_of p)(x \<mapsto> Suc (count_list p x)))"
  by (rule ext) (simp add: counts_of_def)

lemma reaches_shift:
  "reaches T (p @ x # xs) (length p + Suc i) = reaches T ((p @ [x]) @ xs) (length (p @ [x]) + i)"
  by simp

lemma reaches_here:
  "reaches T (p @ x # xs) (length p) \<longleftrightarrow> x \<noteq> ''__proto__'' \<and> T \<le> Suc (count_list p x)"
  by (simp add: reaches_def)

lemma countLoop_none:
  "(\<forall>i<length w. \<not> reaches T (p @ w) (length p + i)) \<Longrightarrow> countLoop T (counts_of p) w = None"
proof (induction w arbitrary: p)
  case Nil
  then show ?case by simp
next
  case (Cons x xs)
  have here: "\<not> reaches T (p @ x # xs) (length p)"
    using Cons.prems by (metis add.right_neutral length_greater_0_conv list.discI)
  have rest: "\<forall>i<length xs. \<not> reaches T ((p @ [x]) @ xs) (length (p @ [x]) + i)"
  proof (intro allI impI)
    fix i assume "i < length xs"
    then have "Suc i < length (x # xs)" by simp
    then have "\<not> reaches T (p @ x # xs) (length p + Suc i)"
      using Cons.prems by blast
    then show "\<not> reaches T ((p @ [x]) @ xs) (length (p @ [x]) + i)"
      using reaches_shift [of T p x xs i] by blast
  qed
  have ih: "countLoop T (counts_of (p @ [x])) xs = None"
    using Cons.IH [OF rest] .
  show ?case
  proof (cases "x = ''__proto__''")
    case True
    with ih show ?thesis by (simp add: counts_of_snoc)
  next
    case False
    with here have "\<not> T \<le> Suc (count_list p x)" by (simp add: reaches_here)
    with False ih show ?thesis
      by (simp add: counts_of_snoc counts_of_read Let_def)
  qed
qed

lemma countLoop_first:
  "k < length w \<Longrightarrow> reaches T (p @ w) (length p + k) \<Longrightarrow>
   (\<forall>i<k. \<not> reaches T (p @ w) (length p + i)) \<Longrightarrow>
   countLoop T (counts_of p) w = Some (w ! k)"
proof (induction w arbitrary: p k)
  case Nil
  then show ?case by simp
next
  case (Cons x xs)
  show ?case
  proof (cases k)
    case 0
    with Cons.prems have "reaches T (p @ x # xs) (length p)" by simp
    then have "x \<noteq> ''__proto__''" "T \<le> Suc (count_list p x)"
      by (simp_all add: reaches_here)
    with 0 show ?thesis by (simp add: counts_of_read)
  next
    case (Suc j)
    with Cons.prems have here: "\<not> reaches T (p @ x # xs) (length p)"
      by (metis add.right_neutral zero_less_Suc)
    have j: "j < length xs" using Cons.prems Suc by simp
    have rj: "reaches T ((p @ [x]) @ xs) (length (p @ [x]) + j)"
      using Cons.prems(2) Suc reaches_shift [of T p x xs j] by blast
    have rest: "\<forall>i<j. \<not> reaches T ((p @ [x]) @ xs) (length (p @ [x]) + i)"
    proof (intro allI impI)
      fix i assume "i < j"
      then have "Suc i < k" using Suc by simp
      then have "\<not> reaches T (p @ x # xs) (length p + Suc i)"
        using Cons.prems(3) by blast
      then show "\<not> reaches T ((p @ [x]) @ xs) (length (p @ [x]) + i)"
        using reaches_shift [of T p x xs i] by blast
    qed
    have ih: "countLoop T (counts_of (p @ [x])) xs = Some (xs ! j)"
      using Cons.IH [OF j rj rest] .
    show ?thesis
    proof (cases "x = ''__proto__''")
      case True
      with ih Suc show ?thesis by (simp add: counts_of_snoc)
    next
      case False
      with here have "\<not> T \<le> Suc (count_list p x)" by (simp add: reaches_here)
      with False ih Suc show ?thesis
        by (simp add: counts_of_snoc counts_of_read Let_def)
    qed
  qed
qed


lemma countLoop_replicate:
  "m \<noteq> ''__proto__'' \<Longrightarrow>
   countLoop T c (replicate n m) =
     (if 0 < n \<and> T \<le> (case c m of None \<Rightarrow> 0 | Some k \<Rightarrow> k) + n then Some m else None)"
  by (induction n arbitrary: c) (auto simp: Let_def)

lemma countLoop_distinct:
  "distinct w \<Longrightarrow> 2 \<le> T \<Longrightarrow> (\<forall>x\<in>set w. c x = None) \<Longrightarrow> countLoop T c w = None"
proof (induction w arbitrary: c)
  case Nil
  then show ?case by simp
next
  case (Cons x xs)
  have fresh: "\<forall>y\<in>set xs. (c(x \<mapsto> Suc 0)) y = None"
    using Cons.prems by auto
  have d: "distinct xs" and cx: "c x = None" and old: "\<forall>y\<in>set xs. c y = None"
    using Cons.prems by simp_all
  have a: "countLoop T (c(x \<mapsto> Suc 0)) xs = None"
    by (rule Cons.IH [OF d Cons.prems(2) fresh])
  have b: "countLoop T c xs = None"
    by (rule Cons.IH [OF d Cons.prems(2) old])
  have T: "\<not> T \<le> Suc 0" using Cons.prems(2) by simp
  show ?case by (simp add: Let_def a b cx T)
qed

lemma detectHype_quiet:
  "messageQueues s channel = Some w \<Longrightarrow> countLoop (HYPE_THRESHOLD cfg) Map.empty w = None \<Longrightarrow>
   detectHype cfg channel s = Some s"
  by (simp add: detectHype_def)

lemma detectHype_fires:
  "messageQueues s channel = Some w \<Longrightarrow> countLoop (HYPE_THRESHOLD cfg) Map.empty w = Some m \<Longrightarrow>
   detectHype cfg channel s =
     Some (s\<lparr>messageQueues := (messageQueues s)(channel \<mapsto> []),
              hypeCalls := hypeCalls s @ [(channel, m)]\<rparr>)"
  by (simp add: detectHype_def)

lemma enqueue_filtered:
  "filterEnqueueMessage cfg channel username (effectiveMessage message emote) isModerator \<Longrightarrow>
   enqueueChatMessage cfg channel username message isModerator emote s = Some s"
  by (simp add: enqueueChatMessage_def)

lemma enqueue_out_of_range:
  "\<not> filterEnqueueMessage cfg channel username (effectiveMessage message emote) isModerator \<Longrightarrow>
   \<not> (HYPE_MIN_MSG_LEN cfg \<le> length (effectiveMessage message emote) \<and>
      length (effectiveMessage message emote) \<le> HYPE_MAX_MSG_LEN cfg) \<Longrightarrow>
   enqueueChatMessage cfg channel username message isModerator emote s =
     Some (s\<lparr>statsLog := statsLog s @ [(channel, username)],
              messageQueues := (messageQueues s)(channel \<mapsto>
                (if HYPE_MAX_QUEUE_LEN cfg \<le> length (queue_of s channel)
                 then tl (queue_of s channel) else queue_of s channel))\<rparr>)"
  by (auto simp: enqueueChatMessage_def queue_of_def Let_def)

lemma enqueue_in_range:
  "\<not> filterEnqueueMessage cfg channel username (effectiveMessage message emote) isModerator \<Longrightarrow>
   HYPE_MIN_MSG_LEN cfg \<le> length (effectiveMessage message emote) \<Longrightarrow>
   length (effectiveMessage message emote) \<le> HYPE_MAX_MSG_LEN cfg \<Longrightarrow>
   enqueueChatMessage cfg channel username message isModerator emote s =
     detectHype cfg channel
       (s\<lparr>statsLog := statsLog s @ [(channel, username)],
          messageQueues := (messageQueues s)(channel \<mapsto>
            (if HYPE_MAX_QUEUE_LEN cfg \<le> length (queue_of s channel)
             then tl (queue_of s channel) else queue_of s channel) @
            [effectiveMessage message emote])\<rparr>)"
  by (auto simp: enqueueChatMessage_def queue_of_def Let_def)

section \<open>Insertion and detection\<close>

lemma run_events_append:
  "run_events cfg (xs @ ys) s =
     (case run_events cfg xs s of None \<Rightarrow> None | Some s' \<Rightarrow> run_events cfg ys s')"
  by (induction xs arbitrary: s) (auto split: option.splits)

lemma effectiveMessage_None: "effectiveMessage m None = m"
  by (simp add: effectiveMessage_def)

lemma queue_of_update:
  "queue_of (s\<lparr>messageQueues := (messageQueues s)(C \<mapsto> q)\<rparr>) D = (if D = C then q else queue_of s D)"
  by (simp add: queue_of_def)

lemma insertion_below:
  assumes "HYPE_MIN_MSG_LEN cfg \<le> length m" "length m \<le> HYPE_MAX_MSG_LEN cfg"
    and "m \<noteq> ''__proto__''"
    and "\<not> filterEnqueueMessage cfg C u m md"
    and "queue_of s C = replicate i m"
    and "Suc i < HYPE_THRESHOLD cfg" "HYPE_THRESHOLD cfg \<le> HYPE_MAX_QUEUE_LEN cfg"
  shows "\<exists>s'. enqueueChatMessage cfg C u m md None s = Some s' \<and> hypeCalls s' = hypeCalls s \<and>
           queue_of s' C = replicate (Suc i) m"
proof -
  let ?s1 = "s\<lparr>statsLog := statsLog s @ [(C, u)],
               messageQueues := (messageQueues s)(C \<mapsto> replicate (Suc i) m)\<rparr>"
  have noevict: "\<not> HYPE_MAX_QUEUE_LEN cfg \<le> length (queue_of s C)"
    using assms by simp
  have "enqueueChatMessage cfg C u m md None s = detectHype cfg C ?s1"
    using assms(1,2,4) noevict
    by (simp add: enqueue_in_range effectiveMessage_None assms(5) replicate_append_same)
  moreover have "countLoop (HYPE_THRESHOLD cfg) Map.empty (replicate (Suc i) m) = None"
    using assms(6) countLoop_replicate [OF assms(3), of "HYPE_THRESHOLD cfg" Map.empty "Suc i"]
    by simp
  then have "detectHype cfg C ?s1 = Some ?s1"
    by (intro detectHype_quiet [where w = "replicate (Suc i) m"]) simp_all
  ultimately show ?thesis
    by (simp add: queue_of_def)
qed

lemma insertion_at_threshold:
  assumes "HYPE_MIN_MSG_LEN cfg \<le> length m" "length m \<le> HYPE_MAX_MSG_LEN cfg"
    and "m \<noteq> ''__proto__''"
    and "\<not> filterEnqueueMessage cfg C u m md"
    and "queue_of s C = replicate i m"
    and "Suc i = HYPE_THRESHOLD cfg" "HYPE_THRESHOLD cfg \<le> HYPE_MAX_QUEUE_LEN cfg"
  shows "\<exists>s'. enqueueChatMessage cfg C u m md None s = Some s' \<and>
           hypeCalls s' = hypeCalls s @ [(C, m)] \<and> messageQueues s' C = Some []"
proof -
  let ?s1 = "s\<lparr>statsLog := statsLog s @ [(C, u)],
               messageQueues := (messageQueues s)(C \<mapsto> replicate (Suc i) m)\<rparr>"
  have noevict: "\<not> HYPE_MAX_QUEUE_LEN cfg \<le> length (queue_of s C)"
    using assms by simp
  have "enqueueChatMessage cfg C u m md None s = detectHype cfg C ?s1"
    using assms(1,2,4) noevict
    by (simp add: enqueue_in_range effectiveMessage_None assms(5) replicate_append_same)
  moreover have "countLoop (HYPE_THRESHOLD cfg) Map.empty (replicate (Suc i) m) = Some m"
    using assms(6) countLoop_replicate [OF assms(3), of "HYPE_THRESHOLD cfg" Map.empty "Suc i"]
    by simp
  then have "detectHype cfg C ?s1 =
      Some (?s1\<lparr>messageQueues := (messageQueues ?s1)(C \<mapsto> []),
                 hypeCalls := hypeCalls ?s1 @ [(C, m)]\<rparr>)"
    by (intro detectHype_fires [where w = "replicate (Suc i) m"]) simp_all
  ultimately show ?thesis
    by simp
qed

lemma insertions_below:
  assumes "HYPE_MIN_MSG_LEN cfg \<le> length m" "length m \<le> HYPE_MAX_MSG_LEN cfg"
    and "m \<noteq> ''__proto__''"
    and "HYPE_THRESHOLD cfg \<le> HYPE_MAX_QUEUE_LEN cfg"
  shows "queue_of s C = replicate i m \<Longrightarrow> i + length senders < HYPE_THRESHOLD cfg \<Longrightarrow>
     (\<forall>(u, md)\<in>set senders. \<not> filterEnqueueMessage cfg C u m md) \<Longrightarrow>
     \<exists>s'. run_events cfg (insertions C m senders) s = Some s' \<and> hypeCalls s' = hypeCalls s \<and>
          queue_of s' C = replicate (i + length senders) m"
proof (induction senders arbitrary: s i)
  case Nil
  then show ?case by (simp add: insertions_def)
next
  case (Cons x senders)
  obtain u md where x: "x = (u, md)" by (cases x)
  have elig: "\<not> filterEnqueueMessage cfg C u m md" using Cons.prems(3) x by simp
  have lt: "Suc i < HYPE_THRESHOLD cfg" using Cons.prems(2) by simp
  obtain s1 where s1: "enqueueChatMessage cfg C u m md None s = Some s1"
      "hypeCalls s1 = hypeCalls s" "queue_of s1 C = replicate (Suc i) m"
    using insertion_below [OF assms(1-3) elig Cons.prems(1) lt assms(4)] by blast
  have "\<exists>s'. run_events cfg (insertions C m senders) s1 = Some s' \<and> hypeCalls s' = hypeCalls s1 \<and>
          queue_of s' C = replicate (Suc i + length senders) m"
    using Cons.prems by (intro Cons.IH [OF s1(3)]) simp_all
  then show ?case
    using s1 x by (simp add: insertions_def)
qed

lemma POG_eligible:
  "\<not> filterEnqueueMessage sqlite_config ''channelX'' ''alice'' ''POG'' False"
  "\<not> filterEnqueueMessage sqlite_config ''channelX'' ''bob'' ''POG'' False"
  "\<not> filterEnqueueMessage sqlite_config ''channelX'' ''carol'' ''POG'' False"
  by code_simp+


text \<open>
  Claim C1, as amended. Let the threshold \<open>T\<close> be at least one and at most the queue
  length \<open>K\<close>, let \<open>m\<close> be a body within the length bounds and other than \<^verbatim>\<open>__proto__\<close>,
  and let \<open>T\<close> senders, each passing the filter with \<open>m\<close>, post \<open>m\<close> in channel \<open>C\<close>,
  whose queue is empty or not yet created. Then fewer than \<open>T\<close> of the insertions make no
  call of \<open>sendHypeMessageThrottled\<close> and leave the copies queued, and the \<open>T\<close>-th makes
  exactly one call, with \<open>(C, m)\<close>, and leaves the queue of \<open>C\<close> empty.
\<close>

theorem hype_on_threshold_copies:
  assumes "1 \<le> HYPE_THRESHOLD cfg" and "HYPE_THRESHOLD cfg \<le> HYPE_MAX_QUEUE_LEN cfg"
    and "HYPE_MIN_MSG_LEN cfg \<le> length m" and "length m \<le> HYPE_MAX_MSG_LEN cfg"
    and "m \<noteq> ''__proto__''"
    and "length senders = HYPE_THRESHOLD cfg"
    and "\<forall>(u, md)\<in>set senders. \<not> filterEnqueueMessage cfg C u m md"
    and "queue_of s C = []"
  shows "(\<forall>j<HYPE_THRESHOLD cfg.
            \<exists>s'. run_events cfg (insertions C m (take j senders)) s = Some s' \<and>
                 hypeCalls s' = hypeCalls s \<and> queue_of s' C = replicate j m) \<and>
         (\<exists>s'. run_events cfg (insertions C m senders) s = Some s' \<and>
               hypeCalls s' = hypeCalls s @ [(C, m)] \<and> messageQueues s' C = Some [])"
proof (intro conjI allI impI)
  fix j assume j: "j < HYPE_THRESHOLD cfg"
  have q: "queue_of s C = replicate 0 m" using assms(8) by simp
  have elig: "\<forall>(u, md)\<in>set (take j senders). \<not> filterEnqueueMessage cfg C u m md"
    using assms(7) by (meson in_set_takeD)
  have len: "0 + length (take j senders) < HYPE_THRESHOLD cfg"
    using j assms(6) by simp
  show "\<exists>s'. run_events cfg (insertions C m (take j senders)) s = Some s' \<and>
             hypeCalls s' = hypeCalls s \<and> queue_of s' C = replicate j m"
    using insertions_below [OF assms(3,4,5,2) q len elig] j assms(6) by simp
next
  from assms(1,6) have ne: "senders \<noteq> []" by auto
  obtain u md where last: "last senders = (u, md)" by (cases "last senders")
  have split: "senders = butlast senders @ [(u, md)]"
    using ne last by (metis append_butlast_last_id)
  have q: "queue_of s C = replicate 0 m" using assms(8) by simp
  have elig: "\<forall>(u, md)\<in>set (butlast senders). \<not> filterEnqueueMessage cfg C u m md"
    using assms(7) by (meson in_set_butlastD)
  have len: "0 + length (butlast senders) < HYPE_THRESHOLD cfg"
    using assms(1,6) by simp
  obtain s1 where s1: "run_events cfg (insertions C m (butlast senders)) s = Some s1"
      "hypeCalls s1 = hypeCalls s" "queue_of s1 C = replicate (length (butlast senders)) m"
    using insertions_below [OF assms(3,4,5,2) q len elig] by auto
  have eligl: "\<not> filterEnqueueMessage cfg C u m md"
    using assms(7) ne last by (metis (mono_tags, lifting) case_prodD last_in_set)
  have suc: "Suc (length (butlast senders)) = HYPE_THRESHOLD cfg"
    using assms(1,6) by simp
  obtain s2 where s2: "enqueueChatMessage cfg C u m md None s1 = Some s2"
      "hypeCalls s2 = hypeCalls s1 @ [(C, m)]" "messageQueues s2 C = Some []"
    using insertion_at_threshold [OF assms(3,4,5) eligl s1(3) suc assms(2)] by blast
  have "run_events cfg (insertions C m senders) s = Some s2"
    by (subst split) (simp add: insertions_def run_events_append s1 [unfolded insertions_def] s2)
  then show "\<exists>s'. run_events cfg (insertions C m senders) s = Some s' \<and>
               hypeCalls s' = hypeCalls s @ [(C, m)] \<and> messageQueues s' C = Some []"
    using s1 s2 by simp
qed

text \<open>The statement at the shipped SQLite settings: three users post \<open>POG\<close>.\<close>

theorem hype_on_threshold_copies_witness:
  "HYPE_THRESHOLD sqlite_config = 3 \<and> HYPE_MAX_QUEUE_LEN sqlite_config = 8 \<and>
   \<not> filterEnqueueMessage sqlite_config ''channelX'' ''alice'' ''POG'' False \<and>
   queue_of initial_state ''channelX'' = [] \<and>
   (\<exists>s'. run_events sqlite_config
            (insertions ''channelX'' ''POG'' [(''alice'', False), (''bob'', False), (''carol'', False)])
            initial_state = Some s' \<and>
         hypeCalls s' = [(''channelX'', ''POG'')] \<and> messageQueues s' ''channelX'' = Some [])"
  using hype_on_threshold_copies [of sqlite_config "''POG''"
      "[(''alice'', False), (''bob'', False), (''carol'', False)]" "''channelX''" initial_state]
    POG_eligible
  by (simp add: sqlite_config_def initial_state_def queue_of_def)


text \<open>
  Without the two conditions the claim fails: with a queue of length 2 and threshold 3
  the third copy evicts the first and no call is made; and three copies of the body
  \<^verbatim>\<open>__proto__\<close> are queued without ever being counted.
\<close>

theorem threshold_copies_counterexample:
  "(case run_events narrow_config
           (insertions ''channelX'' ''POG'' [(''alice'', False), (''bob'', False), (''carol'', False)])
           initial_state of
      None \<Rightarrow> False
    | Some s' \<Rightarrow> hypeCalls s' = [] \<and> messageQueues s' ''channelX'' = Some [''POG'', ''POG'']) \<and>
   (case run_events sqlite_config
           (insertions ''channelX'' ''__proto__''
              [(''alice'', False), (''bob'', False), (''carol'', False)])
           initial_state of
      None \<Rightarrow> False
    | Some s' \<Rightarrow> hypeCalls s' = [] \<and>
        messageQueues s' ''channelX'' = Some [''__proto__'', ''__proto__'', ''__proto__''])"
  by code_simp

section \<open>The detection scan\<close>

text \<open>
  What \<open>detectHype\<close> does on any window: it goes through the window in insertion order
  and stops at the first position where a body the loop counts reaches the threshold;
  with \<open>k\<close> the least such position it makes exactly one call of
  \<open>sendHypeMessageThrottled\<close>, for the body at \<open>k\<close>, and empties the queue, whatever
  follows position \<open>k\<close>; with no such position it changes nothing.
\<close>

lemma detectHype_stops_at_first_reach:
  assumes "messageQueues s channel = Some w"
  shows "((\<forall>i<length w. \<not> reaches (HYPE_THRESHOLD cfg) w i) \<longrightarrow>
            detectHype cfg channel s = Some s) \<and>
         (k < length w \<and> reaches (HYPE_THRESHOLD cfg) w k \<and>
            (\<forall>i<k. \<not> reaches (HYPE_THRESHOLD cfg) w i) \<longrightarrow>
            detectHype cfg channel s =
              Some (s\<lparr>messageQueues := (messageQueues s)(channel \<mapsto> []),
                       hypeCalls := hypeCalls s @ [(channel, w ! k)]\<rparr>))"
proof (intro conjI impI)
  assume none: "\<forall>i<length w. \<not> reaches (HYPE_THRESHOLD cfg) w i"
  have "\<forall>i<length w. \<not> reaches (HYPE_THRESHOLD cfg) ([] @ w) (length ([] :: string list) + i)"
    using none by simp
  then have "countLoop (HYPE_THRESHOLD cfg) (counts_of []) w = None"
    by (rule countLoop_none)
  then show "detectHype cfg channel s = Some s"
    using assms(1) by (simp add: detectHype_quiet counts_of_Nil)
next
  assume k: "k < length w \<and> reaches (HYPE_THRESHOLD cfg) w k \<and>
            (\<forall>i<k. \<not> reaches (HYPE_THRESHOLD cfg) w i)"
  have a: "reaches (HYPE_THRESHOLD cfg) ([] @ w) (length ([] :: string list) + k)"
    using k by simp
  have b: "\<forall>i<k. \<not> reaches (HYPE_THRESHOLD cfg) ([] @ w) (length ([] :: string list) + i)"
    using k by simp
  have "countLoop (HYPE_THRESHOLD cfg) (counts_of []) w = Some (w ! k)"
    using k a b by (intro countLoop_first) simp_all
  then show "detectHype cfg channel s =
              Some (s\<lparr>messageQueues := (messageQueues s)(channel \<mapsto> []),
                       hypeCalls := hypeCalls s @ [(channel, w ! k)]\<rparr>)"
    using assms(1) by (simp add: detectHype_fires counts_of_Nil)
qed

text \<open>
  Between two events no stored queue holds a body at which the loop would stop: a scan
  that stops clears the queue, and removing the oldest entry cannot make the loop stop.
  So in a run from the initial state the scan after an insertion can stop only at the
  body just inserted, the newest entry, and makes at most one call, for that body.
\<close>

lemma countLoop_fewer:
  "countLoop T messageCounts w = None \<Longrightarrow>
   (\<forall>m. (case fewer m of None \<Rightarrow> 0 | Some k \<Rightarrow> k) \<le> (case messageCounts m of None \<Rightarrow> 0 | Some k \<Rightarrow> k)) \<Longrightarrow>
   countLoop T fewer w = None"
proof (induction w arbitrary: messageCounts fewer)
  case Nil
  then show ?case by simp
next
  case (Cons x xs)
  show ?case
  proof (cases "x = ''__proto__''")
    case True
    with Cons.prems have "countLoop T messageCounts xs = None" by simp
    from Cons.IH [OF this Cons.prems(2)] True show ?thesis by simp
  next
    case False
    let ?n = "(case messageCounts x of None \<Rightarrow> 0 | Some k \<Rightarrow> k) + 1"
    let ?n' = "(case fewer x of None \<Rightarrow> 0 | Some k \<Rightarrow> k) + 1"
    have le: "?n' \<le> ?n" using Cons.prems(2) by simp
    from Cons.prems(1) False have below: "\<not> T \<le> ?n"
      and rest: "countLoop T (messageCounts(x \<mapsto> ?n)) xs = None"
      by (simp_all add: Let_def split: if_splits)
    have "\<forall>m. (case (fewer(x \<mapsto> ?n')) m of None \<Rightarrow> 0 | Some k \<Rightarrow> k)
            \<le> (case (messageCounts(x \<mapsto> ?n)) m of None \<Rightarrow> 0 | Some k \<Rightarrow> k)"
      using Cons.prems(2) le by simp
    from Cons.IH [OF rest this] have "countLoop T (fewer(x \<mapsto> ?n')) xs = None" .
    moreover have "\<not> T \<le> ?n'" using below le by linarith
    ultimately show ?thesis using False by (simp add: Let_def)
  qed
qed

lemma countLoop_tl:
  "countLoop T Map.empty w = None \<Longrightarrow> countLoop T Map.empty (tl w) = None"
proof (cases w)
  case Nil
  then show ?thesis by simp
next
  case (Cons x xs)
  assume q: "countLoop T Map.empty w = None"
  show ?thesis
  proof (cases "x = ''__proto__''")
    case True
    with q Cons show ?thesis by simp
  next
    case False
    with q Cons have "countLoop T (Map.empty(x \<mapsto> 0 + 1)) xs = None"
      by (simp add: Let_def split: if_splits)
    then have "countLoop T Map.empty xs = None"
      by (rule countLoop_fewer) simp
    with Cons show ?thesis by simp
  qed
qed

lemma countLoop_newest:
  "countLoop T messageCounts w = None \<Longrightarrow> countLoop T messageCounts (w @ [m]) = Some b \<Longrightarrow> b = m"
proof (induction w arbitrary: messageCounts)
  case Nil
  then show ?case by (simp add: Let_def split: if_splits)
next
  case (Cons x xs)
  show ?case
  proof (cases "x = ''__proto__''")
    case True
    with Cons.prems Cons.IH [of messageCounts] show ?thesis by simp
  next
    case False
    let ?n = "(case messageCounts x of None \<Rightarrow> 0 | Some k \<Rightarrow> k) + 1"
    from Cons.prems(1) False have below: "\<not> T \<le> ?n"
      and rest: "countLoop T (messageCounts(x \<mapsto> ?n)) xs = None"
      by (simp_all add: Let_def split: if_splits)
    from Cons.prems(2) False below
    have "countLoop T (messageCounts(x \<mapsto> ?n)) (xs @ [m]) = Some b"
      by (simp add: Let_def)
    from Cons.IH [OF rest this] show ?thesis .
  qed
qed

lemma enqueue_quiet:
  assumes "windows_quiet cfg s"
    and "enqueueChatMessage cfg channel username message isModerator emote s = Some s'"
  shows "windows_quiet cfg s' \<and>
         (hypeCalls s' = hypeCalls s \<or>
          hypeCalls s' = hypeCalls s @ [(channel, effectiveMessage message emote)])"
proof (cases "filterEnqueueMessage cfg channel username (effectiveMessage message emote) isModerator")
  case True
  with assms show ?thesis by (simp add: enqueue_filtered)
next
  case False
  define m where "m = effectiveMessage message emote"
  define queue1 where "queue1 = (if HYPE_MAX_QUEUE_LEN cfg \<le> length (queue_of s channel)
                 then tl (queue_of s channel) else queue_of s channel)"
  have q0: "countLoop (HYPE_THRESHOLD cfg) Map.empty (queue_of s channel) = None"
    using assms(1) by (auto simp: queue_of_def windows_quiet_def split: option.splits)
  then have q1: "countLoop (HYPE_THRESHOLD cfg) Map.empty queue1 = None"
    by (simp add: queue1_def countLoop_tl)
  show ?thesis
  proof (cases "HYPE_MIN_MSG_LEN cfg \<le> length m \<and> length m \<le> HYPE_MAX_MSG_LEN cfg")
    case out: False
    have "s' = s\<lparr>statsLog := statsLog s @ [(channel, username)],
                        messageQueues := (messageQueues s)(channel \<mapsto> queue1)\<rparr>"
      using assms(2) enqueue_out_of_range [OF False, where s = s] out
      unfolding m_def queue1_def by simp
    then show ?thesis using assms(1) q1 by (auto simp: windows_quiet_def)
  next
    case True
    let ?s2 = "s\<lparr>statsLog := statsLog s @ [(channel, username)],
                  messageQueues := (messageQueues s)(channel \<mapsto> queue1 @ [m])\<rparr>"
    have d: "detectHype cfg channel ?s2 = Some s'"
      using assms(2) enqueue_in_range [OF False, where s = s] True
      unfolding m_def queue1_def by simp
    have mq: "messageQueues ?s2 channel = Some (queue1 @ [m])" by simp
    show ?thesis
    proof (cases "countLoop (HYPE_THRESHOLD cfg) Map.empty (queue1 @ [m])")
      case None
      have "s' = ?s2" using d detectHype_quiet [OF mq None] by simp
      then show ?thesis using assms(1) None by (auto simp: windows_quiet_def)
    next
      case (Some b)
      then have b: "b = m" using countLoop_newest [OF q1] by simp
      have "s' = ?s2\<lparr>messageQueues := (messageQueues ?s2)(channel \<mapsto> []),
                         hypeCalls := hypeCalls ?s2 @ [(channel, m)]\<rparr>"
        using d detectHype_fires [OF mq Some] b by simp
      then show ?thesis using assms(1) by (auto simp: windows_quiet_def m_def)
    qed
  qed
qed

lemma run_quiet:
  "windows_quiet cfg s \<Longrightarrow> run_events cfg es s = Some s' \<Longrightarrow> windows_quiet cfg s'"
proof (induction es arbitrary: s)
  case Nil
  then show ?case by simp
next
  case (Cons e es)
  from Cons.prems(2) obtain s1 where h: "handle_event cfg e s = Some s1"
      and r: "run_events cfg es s1 = Some s'"
    by (auto split: option.splits)
  have "windows_quiet cfg s1"
  proof (cases e)
    case (Enqueue channel username message isModerator emote)
    with h enqueue_quiet [OF Cons.prems(1)] show ?thesis by simp
  next
    case Disposal
    with h show ?thesis by (auto simp: dequeueDisposal_def windows_quiet_def)
  qed
  from Cons.IH [OF this r] show ?case .
qed

lemma scan_stops_at_newest_only:
  assumes "run_events cfg es initial_state = Some s"
    and "enqueueChatMessage cfg channel username message isModerator emote s = Some s'"
  shows "windows_quiet cfg s \<and> windows_quiet cfg s' \<and>
         (hypeCalls s' = hypeCalls s \<or>
          hypeCalls s' = hypeCalls s @ [(channel, effectiveMessage message emote)])"
proof -
  have "windows_quiet cfg initial_state"
    by (simp add: windows_quiet_def initial_state_def)
  then have "windows_quiet cfg s" using assms(1) by (rule run_quiet)
  with enqueue_quiet [OF _ assms(2)] show ?thesis by blast
qed

text \<open>
  Claim C2 on the code. In the SQLite variant three users post the body
  \<^verbatim>\<open>__proto__\<close>, then three users post \<open>GG\<close>, all in one channel. After the third post
  the window holds three copies of \<^verbatim>\<open>__proto__\<close>, the threshold, yet the scan has made
  no call; after the sixth the scan has passed over those three copies and made its one
  call for \<open>GG\<close>, the body that reached the threshold second. The loop keeps its counts
  in a plain object, where the key \<^verbatim>\<open>__proto__\<close> cannot hold a number.
\<close>

theorem scan_passes_over_proto_body:
  "count_list [''__proto__'', ''__proto__'', ''__proto__''] ''__proto__'' = HYPE_THRESHOLD sqlite_config \<and>
   (case run_events sqlite_config
           (insertions ''chan'' ''__proto__'' [(''alice'', False), (''bob'', False), (''carol'', False)])
           initial_state of
      None \<Rightarrow> False
    | Some s' \<Rightarrow> hypeCalls s' = [] \<and>
        messageQueues s' ''chan'' = Some [''__proto__'', ''__proto__'', ''__proto__'']) \<and>
   (case run_events sqlite_config
           (insertions ''chan'' ''__proto__'' [(''alice'', False), (''bob'', False), (''carol'', False)] @
            insertions ''chan'' ''GG'' [(''alice'', False), (''bob'', False), (''carol'', False)])
           initial_state of
      None \<Rightarrow> False
    | Some s' \<Rightarrow> hypeCalls s' = [(''chan'', ''GG'')] \<and> messageQueues s' ''chan'' = Some [])"
  by code_simp

section \<open>Queue length and eviction\<close>

lemma detectHype_cases:
  assumes "messageQueues s channel = Some w"
  shows "detectHype cfg channel s = Some s \<or>
         (\<exists>m. detectHype cfg channel s =
            Some (s\<lparr>messageQueues := (messageQueues s)(channel \<mapsto> []),
                     hypeCalls := hypeCalls s @ [(channel, m)]\<rparr>))"
  using assms by (cases "countLoop (HYPE_THRESHOLD cfg) Map.empty w") (auto simp: detectHype_def)

lemma queues_bounded_update:
  "queues_bounded cfg s \<Longrightarrow> length q \<le> HYPE_MAX_QUEUE_LEN cfg \<Longrightarrow>
   messageQueues s' = (messageQueues s)(C \<mapsto> q) \<Longrightarrow> queues_bounded cfg s'"
  by (auto simp: queues_bounded_def)

lemma queues_bounded_queue_of:
  "queues_bounded cfg s \<Longrightarrow> length (queue_of s C) \<le> HYPE_MAX_QUEUE_LEN cfg"
  by (simp add: queues_bounded_def queue_of_def split: option.splits)

lemma queues_bounded_fields:
  "queues_bounded cfg (s\<lparr>statsLog := x\<rparr>) = queues_bounded cfg s"
  "queues_bounded cfg (s\<lparr>hypeCalls := y\<rparr>) = queues_bounded cfg s"
  by (simp_all add: queues_bounded_def)

lemma evicted_length:
  "0 < K \<Longrightarrow> length q \<le> K \<Longrightarrow> length (if K \<le> length q then tl q else q) < K"
  by auto

lemma enqueue_bounded:
  assumes "0 < HYPE_MAX_QUEUE_LEN cfg" and "queues_bounded cfg s"
  shows "\<exists>s'. enqueueChatMessage cfg channel username message isModerator emote s = Some s' \<and>
              queues_bounded cfg s'"
proof -
  let ?m = "effectiveMessage message emote"
  let ?q = "if HYPE_MAX_QUEUE_LEN cfg \<le> length (queue_of s channel)
            then tl (queue_of s channel) else queue_of s channel"
  have ql: "length ?q < HYPE_MAX_QUEUE_LEN cfg"
    using assms by (intro evicted_length queues_bounded_queue_of)
  show ?thesis
  proof (cases "filterEnqueueMessage cfg channel username ?m isModerator")
    case True
    then show ?thesis using assms(2) by (simp add: enqueue_filtered)
  next
    case False
    show ?thesis
    proof (cases "HYPE_MIN_MSG_LEN cfg \<le> length ?m \<and> length ?m \<le> HYPE_MAX_MSG_LEN cfg")
      case out: False
      have "queues_bounded cfg
              (s\<lparr>statsLog := statsLog s @ [(channel, username)],
                 messageQueues := (messageQueues s)(channel \<mapsto> ?q)\<rparr>)"
        using assms(2) less_imp_le [OF ql] by (rule queues_bounded_update) simp
      then show ?thesis
        using enqueue_out_of_range [OF False out, of s] by simp
    next
      case True
      let ?s1 = "s\<lparr>statsLog := statsLog s @ [(channel, username)],
                   messageQueues := (messageQueues s)(channel \<mapsto> ?q @ [?m])\<rparr>"
      have eq: "enqueueChatMessage cfg channel username message isModerator emote s =
                  detectHype cfg channel ?s1"
        using enqueue_in_range [OF False, of s] True by simp
      have "length (?q @ [?m]) \<le> HYPE_MAX_QUEUE_LEN cfg"
        using ql by simp
      with assms(2) have b1: "queues_bounded cfg ?s1"
        by (rule queues_bounded_update) simp
      have q1: "messageQueues ?s1 channel = Some (?q @ [?m])" by simp
      from detectHype_cases [OF q1, of cfg] show ?thesis
      proof
        assume "detectHype cfg channel ?s1 = Some ?s1"
        then show ?thesis using eq b1 by simp
      next
        assume "\<exists>m. detectHype cfg channel ?s1 =
            Some (?s1\<lparr>messageQueues := (messageQueues ?s1)(channel \<mapsto> []),
                     hypeCalls := hypeCalls ?s1 @ [(channel, m)]\<rparr>)"
        then obtain m where d: "detectHype cfg channel ?s1 =
            Some (?s1\<lparr>messageQueues := (messageQueues ?s1)(channel \<mapsto> []),
                     hypeCalls := hypeCalls ?s1 @ [(channel, m)]\<rparr>)" by blast
        have "queues_bounded cfg (?s1\<lparr>messageQueues := (messageQueues ?s1)(channel \<mapsto> []),
                     hypeCalls := hypeCalls ?s1 @ [(channel, m)]\<rparr>)"
          using b1 by (rule queues_bounded_update [where q = "[]" and C = channel]) simp_all
        then show ?thesis using eq d by simp
      qed
    qed
  qed
qed

lemma run_events_bounded:
  assumes "0 < HYPE_MAX_QUEUE_LEN cfg"
  shows "queues_bounded cfg s \<Longrightarrow>
         \<exists>s'. run_events cfg evs s = Some s' \<and> queues_bounded cfg s'"
proof (induction evs arbitrary: s)
  case Nil
  then show ?case by simp
next
  case (Cons e evs)
  have "\<exists>s1. handle_event cfg e s = Some s1 \<and> queues_bounded cfg s1"
  proof (cases e)
    case (Enqueue channel username message isModerator emote)
    then show ?thesis using enqueue_bounded [OF assms Cons.prems] by simp
  next
    case Disposal
    then show ?thesis by (simp add: dequeueDisposal_def queues_bounded_def)
  qed
  then obtain s1 where s1: "handle_event cfg e s = Some s1" "queues_bounded cfg s1" by blast
  from Cons.IH [OF s1(2)] s1(1) show ?case by simp
qed

lemma fifo_step:
  assumes "0 < K" and "length w \<le> K"
  shows "drop (length (w @ m # rest) - K) (w @ m # rest) =
         drop (length ((if K \<le> length w then tl w else w) @ [m] @ rest) - K)
              ((if K \<le> length w then tl w else w) @ [m] @ rest)"
proof (cases "K \<le> length w")
  case False
  then show ?thesis by simp
next
  case True
  with assms obtain x xs where w: "w = x # xs" and len: "length xs = K - 1"
    by (cases w) auto
  have "length (w @ m # rest) - K = Suc (length rest)"
    using w len assms(1) by simp
  moreover have "length (xs @ [m] @ rest) - K = length rest"
    using len assms(1) by simp
  ultimately show ?thesis using True w by simp
qed

lemma distinct_evict:
  "distinct (w @ m # B) \<Longrightarrow> distinct ((if K \<le> length w then tl w else w) @ [m] @ B)"
  by (cases w) auto

lemma distinct_evict_here:
  "distinct (w @ m # B) \<Longrightarrow> distinct ((if K \<le> length w then tl w else w) @ [m])"
  by (cases w) auto

lemma posts_fifo:
  assumes "0 < HYPE_MAX_QUEUE_LEN cfg" and "2 \<le> HYPE_THRESHOLD cfg"
  shows "queue_of s C = w \<Longrightarrow> length w \<le> HYPE_MAX_QUEUE_LEN cfg \<Longrightarrow>
     distinct (w @ map (\<lambda>p. fst (snd p)) ps) \<Longrightarrow>
     (\<forall>(u, m, md)\<in>set ps. \<not> filterEnqueueMessage cfg C u m md \<and>
        HYPE_MIN_MSG_LEN cfg \<le> length m \<and> length m \<le> HYPE_MAX_MSG_LEN cfg) \<Longrightarrow>
     \<exists>s'. run_events cfg (posts C ps) s = Some s' \<and> hypeCalls s' = hypeCalls s \<and>
          queue_of s' C =
            drop (length (w @ map (\<lambda>p. fst (snd p)) ps) - HYPE_MAX_QUEUE_LEN cfg) (w @ map (\<lambda>p. fst (snd p)) ps)"
proof (induction ps arbitrary: s w)
  case Nil
  then show ?case by (simp add: posts_def)
next
  case (Cons p ps)
  obtain u m md where p: "p = (u, m, md)" by (cases p)
  let ?K = "HYPE_MAX_QUEUE_LEN cfg"
  let ?q = "if ?K \<le> length w then tl w else w"
  let ?s1 = "s\<lparr>statsLog := statsLog s @ [(C, u)],
               messageQueues := (messageQueues s)(C \<mapsto> ?q @ [m])\<rparr>"
  have elig: "\<not> filterEnqueueMessage cfg C u m md"
    and lo: "HYPE_MIN_MSG_LEN cfg \<le> length m" and hi: "length m \<le> HYPE_MAX_MSG_LEN cfg"
    using Cons.prems(4) p by simp_all
  have eq: "enqueueChatMessage cfg C u m md None s = detectHype cfg C ?s1"
    using enqueue_in_range [of cfg C u m None md s] elig lo hi Cons.prems(1)
    by (simp add: effectiveMessage_None)
  have dall: "distinct (?q @ [m] @ map (\<lambda>p. fst (snd p)) ps)"
    using Cons.prems(3) p by (intro distinct_evict) simp
  have dist1: "distinct (?q @ [m])"
    using Cons.prems(3) p by (intro distinct_evict_here [where B = "map (\<lambda>p. fst (snd p)) ps"]) simp
  have "countLoop (HYPE_THRESHOLD cfg) Map.empty (?q @ [m]) = None"
    using dist1 assms(2) by (intro countLoop_distinct) simp_all
  then have det: "detectHype cfg C ?s1 = Some ?s1"
    by (intro detectHype_quiet [where w = "?q @ [m]"]) simp_all
  have q1: "queue_of ?s1 C = ?q @ [m]"
    by (simp add: queue_of_def)
  have len1: "length (?q @ [m]) \<le> ?K"
    using assms(1) Cons.prems(2) by auto
  have dist2: "distinct ((?q @ [m]) @ map (\<lambda>p. fst (snd p)) ps)"
    using dall by simp
  have rest: "\<forall>(u, m, md)\<in>set ps. \<not> filterEnqueueMessage cfg C u m md \<and>
        HYPE_MIN_MSG_LEN cfg \<le> length m \<and> length m \<le> HYPE_MAX_MSG_LEN cfg"
    using Cons.prems(4) by simp
  obtain s' where s': "run_events cfg (posts C ps) ?s1 = Some s'"
      "hypeCalls s' = hypeCalls ?s1"
      "queue_of s' C = drop (length ((?q @ [m]) @ map (\<lambda>p. fst (snd p)) ps) - ?K)
                            ((?q @ [m]) @ map (\<lambda>p. fst (snd p)) ps)"
    using Cons.IH [OF q1 len1 dist2 rest] by blast
  have run: "run_events cfg (posts C (p # ps)) s = Some s'"
    using s'(1) eq det p by (simp add: posts_def)
  have "queue_of s' C = drop (length (w @ map (\<lambda>p. fst (snd p)) (p # ps)) - ?K)
                             (w @ map (\<lambda>p. fst (snd p)) (p # ps))"
    using s'(3) fifo_step [OF assms(1) Cons.prems(2), of m "map (\<lambda>p. fst (snd p)) ps"] p
    by simp
  with run s'(2) show ?case by simp
qed

lemma abc_eligible:
  "\<not> filterEnqueueMessage narrow_config ''chan'' ''alice'' ''a'' False"
  "\<not> filterEnqueueMessage narrow_config ''chan'' ''bob'' ''b'' False"
  "\<not> filterEnqueueMessage narrow_config ''chan'' ''carol'' ''c'' False"
  "\<not> filterEnqueueMessage narrow_config ''chan'' ''alice'' [] False"
  by code_simp+

text \<open>
  Claim C3, as amended. Let the queue length \<open>K\<close> be at least one. If every queue holds
  at most \<open>K\<close> bodies, then after any sequence of calls of \<open>enqueueChatMessage\<close> and
  firings of the disposal timer the run has not failed and every queue still holds at
  most \<open>K\<close> bodies. And with a threshold of at least two, \<open>K + 1\<close> posts with distinct
  bodies, each passing the filter and the length check, into an empty queue leave the
  queue holding exactly the last \<open>K\<close> bodies, oldest first, with no emitter call.
\<close>

theorem window_bounded_and_fifo:
  assumes "0 < HYPE_MAX_QUEUE_LEN cfg"
  shows "(queues_bounded cfg s \<longrightarrow>
            (\<exists>s'. run_events cfg evs s = Some s' \<and> queues_bounded cfg s')) \<and>
         (2 \<le> HYPE_THRESHOLD cfg \<and> queue_of s C = [] \<and>
          length ps = Suc (HYPE_MAX_QUEUE_LEN cfg) \<and> distinct (map (\<lambda>p. fst (snd p)) ps) \<and>
          (\<forall>(u, m, md)\<in>set ps. \<not> filterEnqueueMessage cfg C u m md \<and>
             HYPE_MIN_MSG_LEN cfg \<le> length m \<and> length m \<le> HYPE_MAX_MSG_LEN cfg) \<longrightarrow>
            (\<exists>s'. run_events cfg (posts C ps) s = Some s' \<and> hypeCalls s' = hypeCalls s \<and>
                  queue_of s' C = tl (map (\<lambda>p. fst (snd p)) ps) \<and>
                  length (queue_of s' C) = HYPE_MAX_QUEUE_LEN cfg))"
proof (intro conjI impI)
  assume "queues_bounded cfg s"
  then show "\<exists>s'. run_events cfg evs s = Some s' \<and> queues_bounded cfg s'"
    by (rule run_events_bounded [OF assms])
next
  assume h: "2 \<le> HYPE_THRESHOLD cfg \<and> queue_of s C = [] \<and>
          length ps = Suc (HYPE_MAX_QUEUE_LEN cfg) \<and> distinct (map (\<lambda>p. fst (snd p)) ps) \<and>
          (\<forall>(u, m, md)\<in>set ps. \<not> filterEnqueueMessage cfg C u m md \<and>
             HYPE_MIN_MSG_LEN cfg \<le> length m \<and> length m \<le> HYPE_MAX_MSG_LEN cfg)"
  then have T: "2 \<le> HYPE_THRESHOLD cfg" and q: "queue_of s C = []"
    and len: "length ps = Suc (HYPE_MAX_QUEUE_LEN cfg)"
    and d: "distinct ([] @ map (\<lambda>p. fst (snd p)) ps)"
    and el: "\<forall>(u, m, md)\<in>set ps. \<not> filterEnqueueMessage cfg C u m md \<and>
             HYPE_MIN_MSG_LEN cfg \<le> length m \<and> length m \<le> HYPE_MAX_MSG_LEN cfg"
    by simp_all
  obtain s' where s': "run_events cfg (posts C ps) s = Some s'" "hypeCalls s' = hypeCalls s"
      "queue_of s' C = drop (length ([] @ map (\<lambda>p. fst (snd p)) ps) - HYPE_MAX_QUEUE_LEN cfg)
                            ([] @ map (\<lambda>p. fst (snd p)) ps)"
    using posts_fifo [OF assms T q _ d el] by auto
  have "queue_of s' C = tl (map (\<lambda>p. fst (snd p)) ps)"
    using s'(3) len by (simp add: drop_Suc)
  then show "\<exists>s'. run_events cfg (posts C ps) s = Some s' \<and> hypeCalls s' = hypeCalls s \<and>
                  queue_of s' C = tl (map (\<lambda>p. fst (snd p)) ps) \<and>
                  length (queue_of s' C) = HYPE_MAX_QUEUE_LEN cfg"
    using s'(1,2) len by simp
qed

text \<open>The statement at queue length two: of the posts \<open>a\<close>, \<open>b\<close>, \<open>c\<close> the queue keeps \<open>b\<close>, \<open>c\<close>.\<close>

theorem window_bounded_and_fifo_witness:
  "0 < HYPE_MAX_QUEUE_LEN narrow_config \<and> 2 \<le> HYPE_THRESHOLD narrow_config \<and>
   queues_bounded narrow_config initial_state \<and>
   (\<exists>s'. run_events narrow_config
            (posts ''chan'' [(''alice'', ''a'', False), (''bob'', ''b'', False), (''carol'', ''c'', False)])
            initial_state = Some s' \<and>
         queues_bounded narrow_config s' \<and> queue_of s' ''chan'' = [''b'', ''c''])"
proof -
  have k: "0 < HYPE_MAX_QUEUE_LEN narrow_config" and t: "2 \<le> HYPE_THRESHOLD narrow_config"
    by (simp_all add: narrow_config_def sqlite_config_def)
  have b: "queues_bounded narrow_config initial_state"
    by (simp add: queues_bounded_def initial_state_def)
  have q: "queue_of initial_state ''chan'' = []"
    by (simp add: queue_of_def initial_state_def)
  note w = window_bounded_and_fifo [OF k, of initial_state
      "posts ''chan'' [(''alice'', ''a'', False), (''bob'', ''b'', False), (''carol'', ''c'', False)]"
      "''chan''" "[(''alice'', ''a'', False), (''bob'', ''b'', False), (''carol'', ''c'', False)]"]
  from w b obtain s1 where s1: "run_events narrow_config
            (posts ''chan'' [(''alice'', ''a'', False), (''bob'', ''b'', False), (''carol'', ''c'', False)])
            initial_state = Some s1" "queues_bounded narrow_config s1"
    by blast
  have "\<exists>s'. run_events narrow_config
            (posts ''chan'' [(''alice'', ''a'', False), (''bob'', ''b'', False), (''carol'', ''c'', False)])
            initial_state = Some s' \<and> hypeCalls s' = hypeCalls initial_state \<and>
          queue_of s' ''chan'' = tl (map (\<lambda>p. fst (snd p))
             [(''alice'', ''a'', False), (''bob'', ''b'', False), (''carol'', ''c'', False)]) \<and>
          length (queue_of s' ''chan'') = HYPE_MAX_QUEUE_LEN narrow_config"
    using w t q abc_eligible by (simp add: narrow_config_def sqlite_config_def)
  then have "queue_of s1 ''chan'' = [''b'', ''c'']"
    using s1(1) by auto
  with k t b s1 show ?thesis by blast
qed

text \<open>
  With the queue length set to zero the eviction finds nothing to remove and the body
  is appended all the same: one post leaves a queue of one body, above the capacity.
\<close>

theorem window_capacity_counterexample:
  "HYPE_MAX_QUEUE_LEN zero_window_config = 0 \<and>
   (case run_events zero_window_config (posts ''chan'' [(''alice'', ''a'', False)]) initial_state of
      None \<Rightarrow> False
    | Some s' \<Rightarrow> messageQueues s' ''chan'' = Some [''a''])"
  by code_simp

text \<open>
  Claim C8. A message that passes the filter and whose body (after the emote
  replacement) is shorter than the minimum or longer than the maximum length, arriving
  while the channel's queue is at capacity (and so has an oldest entry): the oldest
  entry is removed, nothing is appended and no emitter call is made, so the queue is one
  entry shorter.
\<close>

theorem out_of_range_body_still_evicts:
  assumes "\<not> filterEnqueueMessage cfg channel username (effectiveMessage message emote) isModerator"
    and "\<not> (HYPE_MIN_MSG_LEN cfg \<le> length (effectiveMessage message emote) \<and>
             length (effectiveMessage message emote) \<le> HYPE_MAX_MSG_LEN cfg)"
    and "messageQueues s channel = Some (oldest # rest)"
    and "HYPE_MAX_QUEUE_LEN cfg \<le> length (oldest # rest)"
  shows "\<exists>s'. enqueueChatMessage cfg channel username message isModerator emote s = Some s' \<and>
              messageQueues s' channel = Some rest \<and>
              length (queue_of s' channel) = length (queue_of s channel) - 1 \<and>
              hypeCalls s' = hypeCalls s"
  using enqueue_out_of_range [OF assms(1,2), of s] assms(3,4)
  by (simp add: queue_of_def)

text \<open>The statement at queue length two: an empty body arriving at the full queue \<open>x y\<close>.\<close>

theorem out_of_range_body_still_evicts_witness:
  "HYPE_MAX_QUEUE_LEN narrow_config = 2 \<and>
   \<not> filterEnqueueMessage narrow_config ''chan'' ''alice'' [] False \<and>
   (\<exists>s'. enqueueChatMessage narrow_config ''chan'' ''alice'' [] False None
            (initial_state\<lparr>messageQueues := [''chan'' \<mapsto> [''x'', ''y'']]\<rparr>) = Some s' \<and>
         messageQueues s' ''chan'' = Some [''y''] \<and> hypeCalls s' = [])"
  using out_of_range_body_still_evicts [of narrow_config "''chan''" "''alice''" "[]" None False
      "initial_state\<lparr>messageQueues := [''chan'' \<mapsto> [''x'', ''y'']]\<rparr>" "''x''" "[''y'']"]
    abc_eligible(4)
  by (auto simp: narrow_config_def sqlite_config_def initial_state_def effectiveMessage_def)

section \<open>The message filter\<close>

lemma filter_cases:
  "filterEnqueueMessage cfg channel username message isModerator \<longleftrightarrow>
     isModerator \<or> toLowerCase username \<in> set (HYPE_USER_IGNORE_LIST cfg) \<or>
     charAt message 0 = ''!'' \<or> regex_test (URI_PATTERN cfg) message"
  by (simp add: filterEnqueueMessage_def)

text \<open>
  Claim C6 on the code. The filter of the SQLite variant lets the body
  \<^verbatim>\<open>http://example.com/foo\<close> of an ordinary user through: its pattern lost the
  backslashes of \<^verbatim>\<open>\w\<close> and \<^verbatim>\<open>\.\<close> in the string literal and only accepts hosts made
  of the letter \<open>w\<close>, underscores and hyphens. The MongoDB variants, which double the
  backslashes, reject the same message.
\<close>

theorem filter_misses_plain_url:
  "filterEnqueueMessage sqlite_config ''channelX'' ''alice'' ''http://example.com/foo'' False = False \<and>
   filterEnqueueMessage mongo_config ''channelX'' ''alice'' ''http://example.com/foo'' False = True"
  by code_simp

section \<open>The emote replacement\<close>

lemma enqueue_total:
  "\<exists>s'. enqueueChatMessage cfg channel username message isModerator emote s = Some s'"
proof -
  let ?m = "effectiveMessage message emote"
  show ?thesis
  proof (cases "filterEnqueueMessage cfg channel username ?m isModerator")
    case True
    then show ?thesis by (simp add: enqueue_filtered)
  next
    case False
    show ?thesis
    proof (cases "HYPE_MIN_MSG_LEN cfg \<le> length ?m \<and> length ?m \<le> HYPE_MAX_MSG_LEN cfg")
      case out: False
      then show ?thesis using enqueue_out_of_range [OF False out, of s] by simp
    next
      case True
      let ?q = "(if HYPE_MAX_QUEUE_LEN cfg \<le> length (queue_of s channel)
                 then tl (queue_of s channel) else queue_of s channel) @ [?m]"
      let ?s1 = "s\<lparr>statsLog := statsLog s @ [(channel, username)],
                   messageQueues := (messageQueues s)(channel \<mapsto> ?q)\<rparr>"
      have eq: "enqueueChatMessage cfg channel username message isModerator emote s =
                  detectHype cfg channel ?s1"
        using enqueue_in_range [OF False, of s] True by simp
      have "messageQueues ?s1 channel = Some ?q" by simp
      from detectHype_cases [OF this, of cfg] eq show ?thesis by auto
    qed
  qed
qed

lemma enqueue_eligible_result:
  assumes "\<not> filterEnqueueMessage cfg channel username (effectiveMessage message emote) isModerator"
    and "HYPE_MIN_MSG_LEN cfg \<le> length (effectiveMessage message emote)"
    and "length (effectiveMessage message emote) \<le> HYPE_MAX_MSG_LEN cfg"
  shows "\<exists>s'. enqueueChatMessage cfg channel username message isModerator emote s = Some s' \<and>
           ((messageQueues s' channel = Some [] \<and> (\<exists>b. hypeCalls s' = hypeCalls s @ [(channel, b)])) \<or>
            (\<exists>q. messageQueues s' channel = Some (q @ [effectiveMessage message emote]) \<and>
                 hypeCalls s' = hypeCalls s))"
proof -
  let ?m = "effectiveMessage message emote"
  let ?q = "(if HYPE_MAX_QUEUE_LEN cfg \<le> length (queue_of s channel)
             then tl (queue_of s channel) else queue_of s channel)"
  let ?s1 = "s\<lparr>statsLog := statsLog s @ [(channel, username)],
               messageQueues := (messageQueues s)(channel \<mapsto> ?q @ [?m])\<rparr>"
  have eq: "enqueueChatMessage cfg channel username message isModerator emote s =
              detectHype cfg channel ?s1"
    using enqueue_in_range [OF assms, of s] by simp
  have q1: "messageQueues ?s1 channel = Some (?q @ [?m])" by simp
  from detectHype_cases [OF q1, of cfg] show ?thesis
  proof
    assume "detectHype cfg channel ?s1 = Some ?s1"
    with eq have "enqueueChatMessage cfg channel username message isModerator emote s = Some ?s1"
      by simp
    moreover have "messageQueues ?s1 channel = Some (?q @ [?m]) \<and> hypeCalls ?s1 = hypeCalls s"
      by simp
    ultimately show ?thesis by blast
  next
    assume "\<exists>m. detectHype cfg channel ?s1 =
            Some (?s1\<lparr>messageQueues := (messageQueues ?s1)(channel \<mapsto> []),
                     hypeCalls := hypeCalls ?s1 @ [(channel, m)]\<rparr>)"
    then obtain b where "detectHype cfg channel ?s1 =
            Some (?s1\<lparr>messageQueues := (messageQueues ?s1)(channel \<mapsto> []),
                     hypeCalls := hypeCalls ?s1 @ [(channel, b)]\<rparr>)" by blast
    with eq show ?thesis by simp
  qed
qed

lemma kappa_facts:
  "substring ''Kappa hello there'' 0 (4 + 1) = ''Kappa''"
  "\<not> filterEnqueueMessage sqlite_config ''chan'' ''alice'' ''Kappa'' False"
  "replace_hash ''#chan'' = ''chan''"
  by code_simp+

lemma substring_inside:
  assumes "0 \<le> a" and "a \<le> b" and "b < int (length s)"
  shows "substring s a (b + 1) = take (nat (b - a) + 1) (drop (nat a) s)"
    and "length (substring s a (b + 1)) = nat (b - a) + 1"
proof -
  have ca: "clampIndex s a = nat a" and cb: "clampIndex s (b + 1) = nat b + 1"
    using assms by (auto simp: clampIndex_def)
  have le: "nat a \<le> nat b + 1" using assms by auto
  have mn: "min (clampIndex s a) (clampIndex s (b + 1)) = nat a"
    and mx: "max (clampIndex s a) (clampIndex s (b + 1)) = nat b + 1"
    using le by (simp_all only: ca cb min_def max_def if_True)
  have d: "nat b + 1 - nat a = nat (b - a) + 1" using assms by auto
  have "substring s a (b + 1) = take (nat b + 1 - nat a) (drop (nat a) s)"
    by (simp only: substring_def Let_def mn mx)
  then show eq: "substring s a (b + 1) = take (nat (b - a) + 1) (drop (nat a) s)"
    by (simp only: d)
  have "nat (b - a) + 1 \<le> length s - nat a" using assms by auto
  then show "length (substring s a (b + 1)) = nat (b - a) + 1"
    unfolding eq by simp
qed

lemma nonempty_emote_replaces_body:
  assumes "msg_emotes msg = e # es"
    and "substring (msg_message msg) (emote_start e) (emote_end e + 1) = emoteText"
    and "emoteText \<noteq> []"
  shows "onPRIVMSG cfg msg s =
           enqueueChatMessage cfg (replace_hash (msg_channel msg)) (msg_username msg) emoteText
             (msg_isModerator msg) None s \<and>
         (\<not> filterEnqueueMessage cfg (replace_hash (msg_channel msg)) (msg_username msg) emoteText
               (msg_isModerator msg) \<and>
          HYPE_MIN_MSG_LEN cfg \<le> length emoteText \<and> length emoteText \<le> HYPE_MAX_MSG_LEN cfg \<longrightarrow>
            (\<exists>s'. onPRIVMSG cfg msg s = Some s' \<and>
               ((messageQueues s' (replace_hash (msg_channel msg)) = Some [] \<and>
                 (\<exists>b. hypeCalls s' = hypeCalls s @ [(replace_hash (msg_channel msg), b)])) \<or>
                (\<exists>q. messageQueues s' (replace_hash (msg_channel msg)) = Some (q @ [emoteText]) \<and>
                     hypeCalls s' = hypeCalls s))))"
proof -
  have eff: "effectiveMessage (msg_message msg) (extractEmote msg) = emoteText"
    using assms by (simp add: effectiveMessage_def extractEmote_def)
  have eff': "effectiveMessage emoteText None = emoteText"
    by (simp add: effectiveMessage_def)
  have same: "onPRIVMSG cfg msg s =
           enqueueChatMessage cfg (replace_hash (msg_channel msg)) (msg_username msg) emoteText
             (msg_isModerator msg) None s"
    by (simp add: onPRIVMSG_def enqueueChatMessage_def eff eff')
  show ?thesis
  proof (intro conjI impI)
    show "onPRIVMSG cfg msg s =
           enqueueChatMessage cfg (replace_hash (msg_channel msg)) (msg_username msg) emoteText
             (msg_isModerator msg) None s" by (rule same)
  next
    assume h: "\<not> filterEnqueueMessage cfg (replace_hash (msg_channel msg)) (msg_username msg) emoteText
               (msg_isModerator msg) \<and>
          HYPE_MIN_MSG_LEN cfg \<le> length emoteText \<and> length emoteText \<le> HYPE_MAX_MSG_LEN cfg"
    show "\<exists>s'. onPRIVMSG cfg msg s = Some s' \<and>
               ((messageQueues s' (replace_hash (msg_channel msg)) = Some [] \<and>
                 (\<exists>b. hypeCalls s' = hypeCalls s @ [(replace_hash (msg_channel msg), b)])) \<or>
                (\<exists>q. messageQueues s' (replace_hash (msg_channel msg)) = Some (q @ [emoteText]) \<and>
                     hypeCalls s' = hypeCalls s))"
      using enqueue_eligible_result [of cfg "replace_hash (msg_channel msg)" "msg_username msg"
          emoteText None "msg_isModerator msg" s] h
      unfolding same eff' by simp
  qed
qed

text \<open>
  Claim C9. An event carries an emote when its first emote tag gives positions of the
  body, start before or at end. The text between the two positions (both inclusive)
  then replaces the body: the handler does exactly what \<open>enqueueChatMessage\<close> does for
  a message whose body is that emote text, so filter, length check, insertion and
  detection all see the emote text. In particular, when the emote text passes the
  filter and the length check, the newest entry of the queue is the emote text, unless
  the insertion triggered a hype and the queue was cleared.
\<close>

theorem emote_text_replaces_body:
  assumes "msg_emotes msg = e # es"
    and "0 \<le> emote_start e" and "emote_start e \<le> emote_end e"
    and "emote_end e < int (length (msg_message msg))"
    and "emoteText = substring (msg_message msg) (emote_start e) (emote_end e + 1)"
  shows "emoteText = take (nat (emote_end e - emote_start e) + 1)
                       (drop (nat (emote_start e)) (msg_message msg)) \<and>
         onPRIVMSG cfg msg s =
           enqueueChatMessage cfg (replace_hash (msg_channel msg)) (msg_username msg) emoteText
             (msg_isModerator msg) None s \<and>
         (\<not> filterEnqueueMessage cfg (replace_hash (msg_channel msg)) (msg_username msg) emoteText
               (msg_isModerator msg) \<and>
          HYPE_MIN_MSG_LEN cfg \<le> length emoteText \<and> length emoteText \<le> HYPE_MAX_MSG_LEN cfg \<longrightarrow>
            (\<exists>s'. onPRIVMSG cfg msg s = Some s' \<and>
               ((messageQueues s' (replace_hash (msg_channel msg)) = Some [] \<and>
                 (\<exists>b. hypeCalls s' = hypeCalls s @ [(replace_hash (msg_channel msg), b)])) \<or>
                (\<exists>q. messageQueues s' (replace_hash (msg_channel msg)) = Some (q @ [emoteText]) \<and>
                     hypeCalls s' = hypeCalls s))))"
proof -
  have len: "length emoteText = nat (emote_end e - emote_start e) + 1"
    unfolding assms(5) by (rule substring_inside(2) [OF assms(2-4)])
  then have ne: "emoteText \<noteq> []" by auto
  have tk: "emoteText = take (nat (emote_end e - emote_start e) + 1)
                       (drop (nat (emote_start e)) (msg_message msg))"
    unfolding assms(5) by (rule substring_inside(1) [OF assms(2-4)])
  from nonempty_emote_replaces_body [OF assms(1) assms(5) [symmetric] ne, of cfg s] tk
  show ?thesis by blast
qed

text \<open>The statement at a message that starts with the emote \<open>Kappa\<close>.\<close>

theorem emote_text_replaces_body_witness:
  "msg_emotes kappa_msg = [\<lparr>emote_start = 0, emote_end = 4\<rparr>] \<and>
   4 < int (length (msg_message kappa_msg)) \<and>
   substring (msg_message kappa_msg) 0 (4 + 1) = ''Kappa'' \<and>
   onPRIVMSG sqlite_config kappa_msg initial_state =
     enqueueChatMessage sqlite_config ''chan'' ''alice'' ''Kappa'' False None initial_state \<and>
   (\<exists>s'. onPRIVMSG sqlite_config kappa_msg initial_state = Some s' \<and>
         messageQueues s' ''chan'' = Some [''Kappa''])"
proof -
  have sub: "''Kappa'' = substring (msg_message kappa_msg)
               (emote_start \<lparr>emote_start = 0, emote_end = 4\<rparr>)
               (emote_end \<lparr>emote_start = 0, emote_end = 4\<rparr> + 1)"
    using kappa_facts(1) by (simp add: kappa_msg_def)
  have em: "msg_emotes kappa_msg = \<lparr>emote_start = 0, emote_end = 4\<rparr> # []"
    by (simp add: kappa_msg_def)
  have h1: "0 \<le> emote_start \<lparr>emote_start = 0, emote_end = 4\<rparr>"
    and h2: "emote_start \<lparr>emote_start = 0, emote_end = 4\<rparr> \<le> emote_end \<lparr>emote_start = 0, emote_end = 4\<rparr>"
    and h3: "emote_end \<lparr>emote_start = 0, emote_end = 4\<rparr> < int (length (msg_message kappa_msg))"
    by (simp_all add: kappa_msg_def)
  note t = emote_text_replaces_body [OF em h1 h2 h3 sub, of sqlite_config initial_state]
  have fields: "replace_hash (msg_channel kappa_msg) = ''chan''" "msg_username kappa_msg = ''alice''"
      "msg_isModerator kappa_msg = False"
    using kappa_facts(3) by (simp_all add: kappa_msg_def)
  have a: "onPRIVMSG sqlite_config kappa_msg initial_state =
     enqueueChatMessage sqlite_config ''chan'' ''alice'' ''Kappa'' False None initial_state"
    using t fields by simp
  have "(case onPRIVMSG sqlite_config kappa_msg initial_state of None \<Rightarrow> False
      | Some s' \<Rightarrow> messageQueues s' ''chan'' = Some [''Kappa''])"
    by code_simp
  then have "\<exists>s'. onPRIVMSG sqlite_config kappa_msg initial_state = Some s' \<and>
         messageQueues s' ''chan'' = Some [''Kappa'']"
    by (auto split: option.splits)
  with a sub em h3 show ?thesis by simp
qed

section \<open>The sentiment window\<close>

lemma countMarkers_counts:
  "countMarkers w (p, n) =
     (p + int (length (filter (\<lambda>msg. snd msg = ''+2'') w)),
      n + int (length (filter (\<lambda>msg. snd msg = ''-2'') w)))"
  by (induction w arbitrary: p n) auto

text \<open>
  Claim C7. An evaluation of the window, by a new event of any kind or by the timer
  (which passes the empty marker), first appends its own entry, then keeps exactly the
  entries that are not strictly older than \<open>now - windowSize\<close>, and reports (appends to
  the recorded averages) twice the number of surviving \<open>+2\<close> entries minus twice the
  number of surviving \<open>-2\<close> entries.
\<close>

theorem moving_average_over_window:
  "messageWindow (updateMessageWindow windowSize now type s) =
     filter (\<lambda>msg. \<not> fst msg < now - windowSize) (messageWindow s @ [(now, type)]) \<and>
   movingAverages (updateMessageWindow windowSize now type s) =
     movingAverages s @
       [2 * int (length (filter (\<lambda>msg. snd msg = ''+2'')
                    (messageWindow (updateMessageWindow windowSize now type s)))) -
        2 * int (length (filter (\<lambda>msg. snd msg = ''-2'')
                    (messageWindow (updateMessageWindow windowSize now type s))))] \<and>
   messageWindow (window_tick windowSize now s) =
     filter (\<lambda>msg. \<not> fst msg < now - windowSize) (messageWindow s @ [(now, [])]) \<and>
   movingAverages (window_tick windowSize now s) =
     movingAverages s @
       [2 * int (length (filter (\<lambda>msg. snd msg = ''+2'')
                    (messageWindow (window_tick windowSize now s)))) -
        2 * int (length (filter (\<lambda>msg. snd msg = ''-2'')
                    (messageWindow (window_tick windowSize now s))))]"
proof -
  have keep: "(\<lambda>msg :: int \<times> string. now - fst msg \<le> windowSize) =
              (\<lambda>msg. \<not> fst msg < now - windowSize)"
    by (rule ext) auto
  have one: "\<And>ty. messageWindow (updateMessageWindow windowSize now ty s) =
      filter (\<lambda>msg. \<not> fst msg < now - windowSize) (messageWindow s @ [(now, ty)])"
    by (simp add: updateMessageWindow_def Let_def keep split: prod.splits)
  have two: "\<And>ty. movingAverages (updateMessageWindow windowSize now ty s) =
      movingAverages s @
       [2 * int (length (filter (\<lambda>msg. snd msg = ''+2'')
                    (messageWindow (updateMessageWindow windowSize now ty s)))) -
        2 * int (length (filter (\<lambda>msg. snd msg = ''-2'')
                    (messageWindow (updateMessageWindow windowSize now ty s))))]"
    unfolding one
    by (simp add: updateMessageWindow_def Let_def keep countMarkers_counts split: prod.splits)
  show ?thesis
    unfolding window_tick_def using one two by blast
qed

lemma updateMessageWindow_fields:
  "dailyPositiveCount (updateMessageWindow W now ty s) = dailyPositiveCount s"
  "dailyNegativeCount (updateMessageWindow W now ty s) = dailyNegativeCount s"
  "hype (updateMessageWindow W now ty s) = hype s"
  "messageWindow (updateMessageWindow W now ty s) =
     filter (\<lambda>msg. now - fst msg \<le> W) (messageWindow s @ [(now, ty)])"
  by (simp_all add: updateMessageWindow_def Let_def split: prod.splits)

lemma both_markers_facts:
  "\<not> filterEnqueueMessage mongo_config ''chan'' ''alice'' ''-2 no wait +2'' False"
  "str_includes (toLowerCase ''-2 no wait +2'') ''+2''"
  "str_includes (toLowerCase ''-2 no wait +2'') ''-2''"
  by code_simp+

text \<open>
  Claim C10. For a message that passes the filter and whose lower-cased body contains
  both markers, the sentiment variant increments the daily positive counter only and
  appends one entry, of kind \<open>+2\<close>, to the window before pruning it; the daily negative
  counter is unchanged.
\<close>

theorem positive_marker_has_priority:
  assumes "\<not> filterEnqueueMessage cfg channel username (effectiveMessage message emote) isModerator"
    and "str_includes (toLowerCase (effectiveMessage message emote)) ''+2''"
    and "str_includes (toLowerCase (effectiveMessage message emote)) ''-2''"
  shows "\<exists>s'. enqueueChatMessage_sentiment cfg windowSize now channel username message isModerator
                 emote s = Some s' \<and>
              dailyPositiveCount s' = dailyPositiveCount s + 1 \<and>
              dailyNegativeCount s' = dailyNegativeCount s \<and>
              messageWindow s' =
                filter (\<lambda>msg. now - fst msg \<le> windowSize) (messageWindow s @ [(now, ''+2'')])"
proof -
  obtain h where h: "enqueueChatMessage cfg channel username message isModerator emote (hype s) = Some h"
    using enqueue_total by blast
  have "enqueueChatMessage_sentiment cfg windowSize now channel username message isModerator emote s =
          Some (updateMessageWindow windowSize now ''+2''
                  (s\<lparr>hype := h, dailyPositiveCount := dailyPositiveCount s + 1\<rparr>))"
    using assms(1,2) h by (simp add: enqueueChatMessage_sentiment_def Let_def)
  then show ?thesis
    by (simp add: updateMessageWindow_fields)
qed

text \<open>The statement at a body that names the negative marker first.\<close>

theorem positive_marker_has_priority_witness:
  "str_includes (toLowerCase ''-2 no wait +2'') ''+2'' \<and>
   str_includes (toLowerCase ''-2 no wait +2'') ''-2'' \<and>
   (\<exists>s'. enqueueChatMessage_sentiment mongo_config WINDOW_SIZE_MS 1000 ''chan'' ''alice''
            ''-2 no wait +2'' False None sentiment_init = Some s' \<and>
         dailyPositiveCount s' = 1 \<and> dailyNegativeCount s' = 0 \<and>
         messageWindow s' = [(1000, ''+2'')])"
  using positive_marker_has_priority [of mongo_config "''chan''" "''alice''" "''-2 no wait +2''" None
      False WINDOW_SIZE_MS 1000 sentiment_init] both_markers_facts
  by (simp add: effectiveMessage_def sentiment_init_def WINDOW_SIZE_MS_def)

section \<open>The throttle\<close>

text \<open>
  Claim C4, on the throttle as the spec describes it. Let the first of two emit calls
  arrive outside an active throttle interval (on a fresh throttle, or at least
  \<open>HYPE_THROTTLE\<close> after the last dispatch) and the second less than \<open>HYPE_THROTTLE\<close>
  after the first. Then the first is dispatched, the second leaves the state exactly as
  it was, so the two calls dispatch exactly one message, and nothing of the second is
  kept for later: a third call after the interval dispatches its own message, and the
  log then holds the first and the third only.
\<close>

theorem throttle_drops_without_replay:
  assumes "lastDispatch e = None \<or> (\<exists>t. lastDispatch e = Some t \<and> t + HYPE_THROTTLE cfg \<le> t1)"
    and "t1 \<le> t2" and "t2 < t1 + HYPE_THROTTLE cfg"
  shows "sayCalls (sendHypeMessageThrottled cfg botname t1 c1 m1 e) = sayCalls e @ [(m1, c1)] \<and>
         sendHypeMessageThrottled cfg botname t2 c2 m2
             (sendHypeMessageThrottled cfg botname t1 c1 m1 e) =
           sendHypeMessageThrottled cfg botname t1 c1 m1 e \<and>
         sayCalls (sendHypeMessageThrottled cfg botname t2 c2 m2
             (sendHypeMessageThrottled cfg botname t1 c1 m1 e)) = sayCalls e @ [(m1, c1)] \<and>
         (t1 + HYPE_THROTTLE cfg \<le> t3 \<longrightarrow>
            sayCalls (sendHypeMessageThrottled cfg botname t3 c3 m3
              (sendHypeMessageThrottled cfg botname t2 c2 m2
                (sendHypeMessageThrottled cfg botname t1 c1 m1 e))) =
            sayCalls e @ [(m1, c1), (m3, c3)])"
proof -
  let ?e1 = "sendHypeMessageThrottled cfg botname t1 c1 m1 e"
  have e1: "?e1 = sendHypeMessage botname c1 m1 (e\<lparr>lastDispatch := Some t1\<rparr>)"
    using assms(1) by (auto simp: sendHypeMessageThrottled_def)
  have last1: "lastDispatch ?e1 = Some t1" and say1: "sayCalls ?e1 = sayCalls e @ [(m1, c1)]"
    by (simp_all add: e1 sendHypeMessage_def)
  have e2: "sendHypeMessageThrottled cfg botname t2 c2 m2 ?e1 = ?e1"
    using assms(3) by (simp add: sendHypeMessageThrottled_def [of cfg botname t2 c2 m2 ?e1] last1)
  have e3: "t1 + HYPE_THROTTLE cfg \<le> t3 \<Longrightarrow>
        sayCalls (sendHypeMessageThrottled cfg botname t3 c3 m3 ?e1) = sayCalls e @ [(m1, c1), (m3, c3)]"
    by (simp add: sendHypeMessageThrottled_def [of cfg botname t3 c3 m3 ?e1] last1 say1
        sendHypeMessage_def)
  show ?thesis
    using say1 e2 e3 by simp
qed

text \<open>The statement at the SQLite interval of 20 s: calls at 0, 19999 and 20000 ms.\<close>

theorem throttle_drops_without_replay_witness:
  "sayCalls (sendHypeMessageThrottled sqlite_config ''hypebot'' 19999 ''chanB'' ''LUL''
      (sendHypeMessageThrottled sqlite_config ''hypebot'' 0 ''chanA'' ''POG'' emitter_init)) =
     [(''POG'', ''chanA'')] \<and>
   sayCalls (sendHypeMessageThrottled sqlite_config ''hypebot'' 20000 ''chanC'' ''GG''
      (sendHypeMessageThrottled sqlite_config ''hypebot'' 19999 ''chanB'' ''LUL''
        (sendHypeMessageThrottled sqlite_config ''hypebot'' 0 ''chanA'' ''POG'' emitter_init))) =
     [(''POG'', ''chanA''), (''GG'', ''chanC'')]"
proof -
  have h1: "lastDispatch emitter_init = None \<or>
      (\<exists>t. lastDispatch emitter_init = Some t \<and> t + HYPE_THROTTLE sqlite_config \<le> 0)"
    by (simp add: emitter_init_def)
  have h2: "(0::int) \<le> 19999" by simp
  have h3: "19999 < 0 + HYPE_THROTTLE sqlite_config" by (simp add: sqlite_config_def)
  have h4: "0 + HYPE_THROTTLE sqlite_config \<le> 20000" by (simp add: sqlite_config_def)
  from throttle_drops_without_replay [OF h1 h2 h3, where botname = "''hypebot''"
      and ?c1.0 = "''chanA''" and ?m1.0 = "''POG''" and ?c2.0 = "''chanB''" and ?m2.0 = "''LUL''"
      and ?t3.0 = 20000 and ?c3.0 = "''chanC''" and ?m3.0 = "''GG''"] h4
  have "sayCalls (sendHypeMessageThrottled sqlite_config ''hypebot'' 19999 ''chanB'' ''LUL''
      (sendHypeMessageThrottled sqlite_config ''hypebot'' 0 ''chanA'' ''POG'' emitter_init)) =
     sayCalls emitter_init @ [(''POG'', ''chanA'')]"
   and "sayCalls (sendHypeMessageThrottled sqlite_config ''hypebot'' 20000 ''chanC'' ''GG''
      (sendHypeMessageThrottled sqlite_config ''hypebot'' 19999 ''chanB'' ''LUL''
        (sendHypeMessageThrottled sqlite_config ''hypebot'' 0 ''chanA'' ''POG'' emitter_init))) =
     sayCalls emitter_init @ [(''POG'', ''chanA''), (''GG'', ''chanC'')]"
    by blast+
  moreover have "sayCalls emitter_init = []" by (simp add: emitter_init_def)
  ultimately show ?thesis by (simp only: append_Nil)
qed

section \<open>The action limiter\<close>

lemma spaced_snoc:
  "spaced wait (ts @ [t]) \<longleftrightarrow> spaced wait ts \<and> (ts = [] \<or> last ts + wait \<le> t)"
  by (induction wait ts rule: spaced.induct) auto

lemma limiter_inv_init: "limiter_inv throws wait (clock, limiter_init)"
  by (simp add: limiter_inv_def limiter_init_def)

lemma caller_idle:
  "isCalled l \<or> calls l = [] \<Longrightarrow> caller throws wait now l = Returned l"
  by (auto simp: caller_def split: list.splits)

lemma caller_runs:
  "\<not> isCalled l \<Longrightarrow> calls l = c # rest \<Longrightarrow> \<not> throws c \<Longrightarrow>
   caller throws wait now l =
     Returned (l\<lparr>isCalled := True, calls := rest, executed := executed l @ [(c, now)],
                 timers := timers l @ [now + wait]\<rparr>)"
  by (simp add: caller_def Let_def)

lemma caller_throws:
  "\<not> isCalled l \<Longrightarrow> calls l = c # rest \<Longrightarrow> throws c \<Longrightarrow>
   caller throws wait now l =
     Thrown (l\<lparr>isCalled := True, calls := rest, executed := executed l @ [(c, now)]\<rparr>)"
  by (simp add: caller_def Let_def)

lemma caller_content:
  "map fst (executed (state_left (caller throws wait t l))) @ calls (state_left (caller throws wait t l)) =
     map fst (executed l) @ calls l \<and>
   (\<exists>x. executed (state_left (caller throws wait t l)) = executed l @ x)"
  by (auto simp: caller_def Let_def split: list.splits)

lemma step_content:
  assumes "limiter_step throws wait ev (clock, l) = Some (clock', l')"
  shows "map fst (executed l') @ calls l' = map fst (executed l) @ calls l @ enqueued [ev] \<and>
         (\<exists>x. executed l' = executed l @ x)"
proof -
  obtain t e where ev: "ev = (t, e)" by (cases ev)
  show ?thesis
  proof (cases e)
    case (Call c)
    with assms ev have "limiter_step throws wait (t, Call c) (clock, l) = Some (clock', l')" by simp
    then have "l' = state_left (limited throws wait t c l)" by (auto split: if_splits)
    then show ?thesis
      using caller_content [of throws wait t "l\<lparr>calls := calls l @ [c]\<rparr>"] ev Call
      by (simp add: limited_def)
  next
    case Timeout
    with assms ev have "limiter_step throws wait (t, Timeout) (clock, l) = Some (clock', l')" by simp
    then obtain due others where "timers l = due # others"
        "l' = state_left (timeout_callback throws wait t (l\<lparr>timers := others\<rparr>))"
      by (auto split: list.splits if_splits)
    then show ?thesis
      using caller_content [of throws wait t "l\<lparr>timers := others, isCalled := False\<rparr>"] ev Timeout
      by (simp add: timeout_callback_def)
  qed
qed

lemma limited_inv:
  assumes "limiter_inv throws wait (clock, l)" and "clock \<le> t" and "\<not> throws c"
  shows "limiter_inv throws wait (t, state_left (limited throws wait t c l))"
proof (cases "isCalled l")
  case True
  then have "limited throws wait t c l = Returned (l\<lparr>calls := calls l @ [c]\<rparr>)"
    by (simp add: limited_def caller_idle)
  then show ?thesis using assms True by (auto simp: limiter_inv_def)
next
  case False
  with assms(1) have idle: "calls l = []" "timers l = []"
    by (auto simp: limiter_inv_def)
  have lim: "limited throws wait t c l =
      Returned (l\<lparr>calls := [], isCalled := True, executed := executed l @ [(c, t)],
                  timers := [t + wait]\<rparr>)"
    using False idle assms(3) by (simp add: limited_def caller_def Let_def)
  have sp: "spaced wait (map snd (executed l) @ [t])"
  proof (cases "executed l = []")
    case True
    then show ?thesis by simp
  next
    case ne: False
    then have "snd (last (executed l)) + wait \<le> clock"
      using assms(1) False by (auto simp: limiter_inv_def)
    moreover have "last (map snd (executed l)) = snd (last (executed l))"
      using ne by (simp add: last_map)
    ultimately show ?thesis
      using assms ne by (simp add: spaced_snoc limiter_inv_def)
  qed
  show ?thesis
    unfolding lim using sp by (simp add: limiter_inv_def)
qed

lemma timeout_inv:
  assumes "limiter_inv throws wait (clock, l)" and "timers l = due # others"
    and "clock \<le> t" and "due \<le> t"
  shows "limiter_inv throws wait (t, state_left (timeout_callback throws wait t (l\<lparr>timers := others\<rparr>)))"
proof -
  from assms(1,2) have called: "isCalled l" and others: "others = []"
    by (auto simp: limiter_inv_def)
  have due: "executed l = [] \<or> due = snd (last (executed l)) + wait"
    using assms(1,2) called by (auto simp: limiter_inv_def)
  have sp0: "spaced wait (map snd (executed l))"
    using assms(1) by (simp add: limiter_inv_def)
  have quiet: "\<forall>c\<in>set (calls l). \<not> throws c"
    using assms(1) by (simp add: limiter_inv_def)
  show ?thesis
  proof (cases "calls l")
    case Nil
    then have "timeout_callback throws wait t (l\<lparr>timers := others\<rparr>) =
        Returned (l\<lparr>timers := [], isCalled := False\<rparr>)"
      using others by (simp add: timeout_callback_def caller_def)
    then show ?thesis
      using sp0 due assms(4) Nil by (auto simp: limiter_inv_def)
  next
    case (Cons c rest)
    then have nt: "\<not> throws c" and rest: "\<forall>c\<in>set rest. \<not> throws c"
      using quiet by simp_all
    have tc: "timeout_callback throws wait t (l\<lparr>timers := others\<rparr>) =
        Returned (l\<lparr>timers := [t + wait], isCalled := True, calls := rest,
          executed := executed l @ [(c, t)]\<rparr>)"
      using others Cons nt by (simp add: timeout_callback_def caller_def Let_def)
    have sp: "spaced wait (map snd (executed l) @ [t])"
    proof (cases "executed l = []")
      case True
      then show ?thesis by simp
    next
      case ne: False
      then have "snd (last (executed l)) + wait \<le> t"
        using due assms(4) by auto
      moreover have "last (map snd (executed l)) = snd (last (executed l))"
        using ne by (simp add: last_map)
      ultimately show ?thesis using sp0 ne by (simp add: spaced_snoc)
    qed
    show ?thesis
      unfolding tc using sp rest by (simp add: limiter_inv_def)
  qed
qed

lemma step_inv:
  assumes "limiter_inv throws wait (clock, l)"
    and "limiter_step throws wait ev (clock, l) = Some cl'"
    and "\<forall>c\<in>set (enqueued [ev]). \<not> throws c"
  shows "limiter_inv throws wait cl'"
proof -
  obtain t e where ev: "ev = (t, e)" by (cases ev)
  show ?thesis
  proof (cases e)
    case (Call c)
    with assms(2) ev have "limiter_step throws wait (t, Call c) (clock, l) = Some cl'" by simp
    then have "clock \<le> t" "cl' = (t, state_left (limited throws wait t c l))"
      by (auto split: if_splits)
    moreover have "\<not> throws c" using assms(3) ev Call by simp
    ultimately show ?thesis using limited_inv [OF assms(1)] by simp
  next
    case Timeout
    with assms(2) ev have "limiter_step throws wait (t, Timeout) (clock, l) = Some cl'" by simp
    then obtain due others where "timers l = due # others" "clock \<le> t" "due \<le> t"
        "cl' = (t, state_left (timeout_callback throws wait t (l\<lparr>timers := others\<rparr>)))"
      by (auto split: list.splits if_splits)
    then show ?thesis using timeout_inv [OF assms(1)] by simp
  qed
qed

lemma enqueued_Cons: "enqueued (ev # sched) = enqueued [ev] @ enqueued sched"
proof -
  obtain t e where "ev = (t, e)" by (cases ev)
  then show ?thesis by (cases e) simp_all
qed

lemma run_inv_content:
  "limiter_inv throws wait (clock, l) \<Longrightarrow>
   limiter_run throws wait sched (clock, l) = Some (clock', l') \<Longrightarrow>
   \<forall>c\<in>set (enqueued sched). \<not> throws c \<Longrightarrow>
   limiter_inv throws wait (clock', l') \<and>
   map fst (executed l') @ calls l' = map fst (executed l) @ calls l @ enqueued sched \<and>
   (\<exists>x. executed l' = executed l @ x)"
proof (induction sched arbitrary: clock l)
  case Nil
  then show ?case by simp
next
  case (Cons ev sched)
  from Cons.prems(2) obtain c1 l1 where s1: "limiter_step throws wait ev (clock, l) = Some (c1, l1)"
      and r1: "limiter_run throws wait sched (c1, l1) = Some (clock', l')"
    by (auto split: option.splits)
  have q: "\<forall>c\<in>set (enqueued [ev]). \<not> throws c" "\<forall>c\<in>set (enqueued sched). \<not> throws c"
    using Cons.prems(3) by (simp_all add: enqueued_Cons [of ev sched])
  have i1: "limiter_inv throws wait (c1, l1)" using step_inv [OF Cons.prems(1) s1 q(1)] .
  note c1 = step_content [OF s1]
  note ih = Cons.IH [OF i1 r1 q(2)]
  show ?case
    using ih c1 unfolding enqueued_Cons [of ev sched] by auto
qed

lemma drain_inv:
  "limiter_inv throws wait (clock, l) \<Longrightarrow>
   \<exists>clock' l'. drain throws wait (clock, l) = Some (clock', l') \<and>
     limiter_inv throws wait (clock', l') \<and> timers l' = [] \<and>
     map fst (executed l') @ calls l' = map fst (executed l) @ calls l \<and>
     (\<exists>x. executed l' = executed l @ x)"
proof (induction throws wait "(clock, l)" arbitrary: clock l rule: drain.induct)
  case (1 throws wait clock l)
  show ?case
  proof (cases "timers l")
    case Nil
    then have "drain throws wait (clock, l) = Some (clock, l)"
      by (subst drain.simps) simp
    with Nil "1.prems" show ?thesis by simp
  next
    case (Cons due others)
    let ?t = "max clock due"
    let ?l1 = "state_left (timeout_callback throws wait ?t (l\<lparr>timers := others\<rparr>))"
    have st: "limiter_step throws wait (?t, Timeout) (clock, l) = Some (?t, ?l1)"
      using Cons by simp
    have i1: "limiter_inv throws wait (?t, ?l1)"
      using step_inv [OF "1.prems" st] by simp
    note c1 = step_content [OF st]
    obtain clock' l' where d: "drain throws wait (?t, ?l1) = Some (clock', l')"
        "limiter_inv throws wait (clock', l')" "timers l' = []"
        "map fst (executed l') @ calls l' = map fst (executed ?l1) @ calls ?l1"
        "\<exists>x. executed l' = executed ?l1 @ x"
      using "1.hyps" [OF Cons st i1] by blast
    have "drain throws wait (clock, l) = drain throws wait (?t, ?l1)"
      using Cons st by (subst drain.simps) simp
    with d c1 show ?thesis by auto
  qed
qed

text \<open>
  Once a call has thrown, the limiter is busy with no timer pending: every later call
  is queued and none is invoked, whatever the schedule.
\<close>

lemma wedged_for_good:
  "isCalled l \<Longrightarrow> timers l = [] \<Longrightarrow>
   limiter_run throws wait sched (clock, l) = Some (clock', l') \<Longrightarrow>
   executed l' = executed l \<and> calls l' = calls l @ enqueued sched \<and>
   isCalled l' \<and> timers l' = []"
proof (induction sched arbitrary: clock l)
  case Nil
  then show ?case by simp
next
  case (Cons ev sched)
  obtain t e where ev: "ev = (t, e)" by (cases ev)
  show ?case
  proof (cases e)
    case (Call c)
    have lim: "limited throws wait t c l = Returned (l\<lparr>calls := calls l @ [c]\<rparr>)"
      using Cons.prems(1) by (simp add: limited_def caller_idle)
    from Cons.prems(3) ev Call lim
    have r: "limiter_run throws wait sched (t, l\<lparr>calls := calls l @ [c]\<rparr>) = Some (clock', l')"
      by (simp split: if_splits)
    from Cons.IH [OF _ _ r] Cons.prems(1,2) ev Call show ?thesis by simp
  next
    case Timeout
    with Cons.prems(2,3) ev show ?thesis by simp
  qed
qed

text \<open>
  A call that throws on an idle limiter is invoked and leaves the limiter in that state:
  whatever is submitted afterwards is queued, and nothing is invoked any more.
\<close>

lemma throwing_call_wedges:
  assumes "\<not> isCalled l" and "calls l = []" and "timers l = []" and "throws c"
    and "limiter_run throws wait ((t, Call c) # sched) (clock, l) = Some (clock', l')"
  shows "executed l' = executed l @ [(c, t)] \<and> calls l' = enqueued sched \<and>
         isCalled l' \<and> timers l' = []"
proof -
  let ?l1 = "l\<lparr>calls := [], isCalled := True, executed := executed l @ [(c, t)]\<rparr>"
  have "limited throws wait t c l = Thrown ?l1"
    using assms(1,2,4) by (simp add: limited_def caller_def Let_def)
  with assms(5) have r: "limiter_run throws wait sched (t, ?l1) = Some (clock', l')"
    by (simp split: if_splits)
  have "isCalled ?l1" "timers ?l1 = []" using assms(3) by simp_all
  from wedged_for_good [OF this r] show ?thesis by simp
qed

text \<open>
  Claim C5, for calls that return normally. After any schedule of calls and timer firings
  on a fresh limiter (event times never decrease, a timer never fires before it is due)
  in which no submitted call throws when it is invoked: the calls invoked so far followed
  by the calls still queued are the calls made, in the order made, so the invocations
  follow the submission order and no call is lost; consecutive invocations are at least
  \<open>wait\<close> apart; the limiter is busy exactly while a timer is pending and at most one
  timer is pending, so at most one invocation is in flight. And letting the pending
  timers fire empties the queue: every call made has then been invoked, in order and
  spaced, after the invocations already made.
\<close>

theorem limiter_in_order_spaced_lossless:
  assumes "limiter_run throws wait sched (clock0, limiter_init) = Some (clock, l)"
    and "\<forall>c\<in>set (enqueued sched). \<not> throws c"
  shows "map fst (executed l) @ calls l = enqueued sched \<and>
         spaced wait (map snd (executed l)) \<and>
         length (timers l) \<le> 1 \<and> (isCalled l \<longleftrightarrow> timers l \<noteq> []) \<and>
         (\<exists>clock' l'. drain throws wait (clock, l) = Some (clock', l') \<and>
            calls l' = [] \<and> timers l' = [] \<and> \<not> isCalled l' \<and>
            map fst (executed l') = enqueued sched \<and>
            spaced wait (map snd (executed l')) \<and>
            take (length (executed l)) (executed l') = executed l)"
proof -
  have i0: "limiter_inv throws wait (clock0, limiter_init :: 'a limiter_state)"
    by (rule limiter_inv_init)
  from run_inv_content [OF i0 assms]
  have inv: "limiter_inv throws wait (clock, l)"
    and content: "map fst (executed l) @ calls l = enqueued sched"
    by (simp_all add: limiter_init_def)
  obtain clock' l' where d: "drain throws wait (clock, l) = Some (clock', l')"
      "limiter_inv throws wait (clock', l')" "timers l' = []"
      "map fst (executed l') @ calls l' = map fst (executed l) @ calls l"
      "\<exists>x. executed l' = executed l @ x"
    using drain_inv [OF inv] by blast
  have idle: "\<not> isCalled l'" "calls l' = []"
    using d(2,3) by (auto simp: limiter_inv_def)
  have "map fst (executed l') = enqueued sched"
    using d(4) idle content by simp
  moreover have "spaced wait (map snd (executed l'))"
    using d(2) by (simp add: limiter_inv_def)
  moreover have "take (length (executed l)) (executed l') = executed l"
    using d(5) by auto
  moreover have "spaced wait (map snd (executed l))" "length (timers l) \<le> 1"
      "isCalled l \<longleftrightarrow> timers l \<noteq> []"
    using inv by (simp_all add: limiter_inv_def)
  ultimately show ?thesis
    using content d(1,3) idle by blast
qed

lemma burst_run:
  "limiter_run never_throws 1500 burst_schedule (0, limiter_init) =
     Some (3100, \<lparr>isCalled = True, calls = [], timers = [4600],
                  executed = [(''A1'', 0), (''A2'', 1500), (''A3'', 3100)]\<rparr>)"
  by (simp add: burst_schedule_def limiter_init_def limited_def timeout_callback_def caller_def
      never_throws_def Let_def)

text \<open>
  The burst of three calls in \<open>burst_schedule\<close>, none of which throws: the calls run
  at 0, 1500 and 3100 ms, and the last timer then finds the queue empty.
\<close>

theorem limiter_in_order_spaced_lossless_witness:
  "limiter_run never_throws 1500 burst_schedule (0, limiter_init) =
     Some (3100, \<lparr>isCalled = True, calls = [], timers = [4600],
                  executed = [(''A1'', 0), (''A2'', 1500), (''A3'', 3100)]\<rparr>) \<and>
   enqueued burst_schedule = [''A1'', ''A2'', ''A3''] \<and>
   \<not> never_throws ''A1'' \<and> \<not> never_throws ''A2'' \<and> \<not> never_throws ''A3'' \<and>
   spaced 1500 [0, 1500, 3100] \<and>
   (\<exists>clock' l'. drain never_throws 1500
        (3100, \<lparr>isCalled = True, calls = [], timers = [4600],
                executed = [(''A1'', 0), (''A2'', 1500), (''A3'', 3100)]\<rparr>) = Some (clock', l') \<and>
      calls l' = [] \<and> map fst (executed l') = [''A1'', ''A2'', ''A3''])"
proof -
  have e: "enqueued burst_schedule = [''A1'', ''A2'', ''A3'']"
    by (simp add: burst_schedule_def)
  have q: "\<forall>c\<in>set (enqueued burst_schedule). \<not> never_throws c"
    by (simp add: never_throws_def)
  have n: "\<not> never_throws ''A1'' \<and> \<not> never_throws ''A2'' \<and> \<not> never_throws ''A3''"
    by (simp add: never_throws_def)
  from limiter_in_order_spaced_lossless [OF burst_run q] e burst_run n
  show ?thesis by auto
qed

text \<open>
  Claim C5 as worded covers every sequence of calls. \<open>caller\<close> sets \<open>isCalled\<close>
  before it invokes the call and arms the timer after it, with no handler around the
  invocation: when the first call of \<open>boom_schedule\<close> throws, the flag stays set and
  no timer is pending. The two calls submitted afterwards are queued and are never
  invoked, neither by the run nor by letting the pending timers fire.
\<close>

theorem throwing_call_counterexample:
  "limiter_run boom_throws 1500 boom_schedule (0, limiter_init) =
     Some (5000, \<lparr>isCalled = True, calls = [''A2'', ''A3''], timers = [],
                  executed = [(''boom'', 0)]\<rparr>) \<and>
   enqueued boom_schedule = [''boom'', ''A2'', ''A3''] \<and>
   drain boom_throws 1500
     (5000, \<lparr>isCalled = True, calls = [''A2'', ''A3''], timers = [], executed = [(''boom'', 0)]\<rparr>) =
     Some (5000, \<lparr>isCalled = True, calls = [''A2'', ''A3''], timers = [],
                  executed = [(''boom'', 0)]\<rparr>)"
  by (simp add: boom_schedule_def boom_throws_def limiter_init_def limited_def caller_def Let_def)

end
